theory Spec2Isabelle
  imports Main "HOL-Library.Sublist"
begin

section \<open>Exceptions\<close>

text \<open>
  Both scripts only ever write \<^verbatim>\<open>except Exception\<close>. Python's hierarchy has
  \<^verbatim>\<open>BaseException\<close> at the root; \<^verbatim>\<open>Exception\<close> is the class of
  the non-system-exiting exceptions (selenium's \<^verbatim>\<open>TimeoutException\<close>,
  \<^verbatim>\<open>NoSuchElementException\<close>, \<^verbatim>\<open>AttributeError\<close>, ...), and the rest
  (\<^verbatim>\<open>KeyboardInterrupt\<close>, \<^verbatim>\<open>SystemExit\<close>) is not caught by
  \<^verbatim>\<open>except Exception\<close>. The argument of a constructor is the name of the class raised.
\<close>

datatype exn = Exception string | SystemExiting string

fun isinstance_Exception :: "exn \<Rightarrow> bool" where
  "isinstance_Exception (Exception _) = True"
| "isinstance_Exception (SystemExiting _) = False"

section \<open>The browser session\<close>

text \<open>
  The selenium driver is an external collaborator. Its state is an arbitrary type \<open>'d\<close>;
  every call the scripts make is a field of \<open>env\<close>: a function of the driver state that
  returns the value or the exception raised, and the next driver state. A
  \<^verbatim>\<open>WebElement\<close> is an opaque handle. \<open>wd_get_nan\<close> is
  \<^verbatim>\<open>driver.get\<close> called with the missing value of a table (NaN) instead of a
  string. \<open>html_parser\<close> is \<^verbatim>\<open>BeautifulSoup(_, "html.parser")\<close>; its result is the
  tree defined below.

  A \<open>string\<close> stands for a Python \<^verbatim>\<open>str\<close> whose code points are below 256, one
  \<open>char\<close> per code point.
\<close>

type_synonym element = string

datatype node = Text string | Special string | Tag string "(string \<times> string) list" "node list"

type_synonym soup = "node list"

record 'd env =
  wd_get :: "string \<Rightarrow> 'd \<Rightarrow> (exn + unit) \<times> 'd"
  wd_get_nan :: "'d \<Rightarrow> (exn + unit) \<times> 'd"
  wd_until_body :: "'d \<Rightarrow> (exn + unit) \<times> 'd"
  wd_find_element :: "string \<Rightarrow> 'd \<Rightarrow> (exn + element) \<times> 'd"
  wd_find_elements :: "string \<Rightarrow> 'd \<Rightarrow> (exn + element list) \<times> 'd"
  wd_elem_find_elements :: "element \<Rightarrow> string \<Rightarrow> 'd \<Rightarrow> (exn + element list) \<times> 'd"
  wd_get_attribute :: "element \<Rightarrow> string \<Rightarrow> 'd \<Rightarrow> (exn + string option) \<times> 'd"
  wd_execute_script :: "string \<Rightarrow> element list \<Rightarrow> 'd \<Rightarrow> (exn + unit) \<times> 'd"
  wd_page_source :: "'d \<Rightarrow> (exn + string) \<times> 'd"
  wd_quit :: "'d \<Rightarrow> (exn + unit) \<times> 'd"
  html_parser :: "string \<Rightarrow> exn + soup"

text \<open>
  A session is the driver state together with the log of the driver calls made so far,
  so that "never navigated to" and "the session was released" are statements about the log.
\<close>

datatype event =
    Get string
  | GetNaN
  | Until
  | FindElement string
  | FindElements string
  | ElemFindElements element string
  | GetAttribute element string
  | ExecuteScript string "element list"
  | PageSource
  | Quit

record 'd session =
  drv :: 'd
  calls :: "event list"

definition call :: "event \<Rightarrow> ('d \<Rightarrow> (exn + 'a) \<times> 'd) \<Rightarrow> 'd session \<Rightarrow> (exn + 'a) \<times> 'd session" where
  "call ev f s = (case f (drv s) of (r, d') \<Rightarrow> (r, \<lparr>drv = d', calls = calls s @ [ev]\<rparr>))"

section \<open>The parsed page (BeautifulSoup)\<close>

text \<open>
  The tree has strings and tags with their attribute dict and children. A string is plain
  text (\<open>Text\<close>: a \<^verbatim>\<open>NavigableString\<close> or \<^verbatim>\<open>CData\<close>) or one of the
  other kinds (\<open>Special\<close>: a comment, a declaration, a doctype, a processing instruction,
  the content of a \<^verbatim>\<open>script\<close>, \<^verbatim>\<open>style\<close>, \<^verbatim>\<open>template\<close>,
  \<^verbatim>\<open>rt\<close> or \<^verbatim>\<open>rp\<close> tag).
  \<^verbatim>\<open>soup.find(string=f)\<close> goes through the strings of every kind
  (\<open>strings_of\<close>, \<open>soup_find_string\<close>); \<^verbatim>\<open>.text\<close> and
  \<^verbatim>\<open>.get_text()\<close> of a \<^verbatim>\<open>span\<close>, \<^verbatim>\<open>a\<close> or \<^verbatim>\<open>div\<close> tag
  take the plain text below it only (\<open>text_strings\<close>, \<open>tag_text\<close>,
  \<open>get_text_strip\<close>). \<open>tags_of\<close> are the tags in document order, \<open>soup_find\<close> is
  \<^verbatim>\<open>soup.find(name, {k: v})\<close>, \<open>find_all\<close> is \<^verbatim>\<open>tag.find_all(name)\<close>.
  \<open>strip\<close> is \<^verbatim>\<open>str.strip()\<close>: \<open>is_space\<close> holds of the code points below 256
  for which \<^verbatim>\<open>str.isspace()\<close> holds.
\<close>

fun strings_of :: "node \<Rightarrow> string list" where
  "strings_of (Text t) = [t]"
| "strings_of (Special t) = [t]"
| "strings_of (Tag n a cs) = concat (map strings_of cs)"

fun text_strings :: "node \<Rightarrow> string list" where
  "text_strings (Text t) = [t]"
| "text_strings (Special t) = []"
| "text_strings (Tag n a cs) = concat (map text_strings cs)"

fun tags_of :: "node \<Rightarrow> node list" where
  "tags_of (Text t) = []"
| "tags_of (Special t) = []"
| "tags_of (Tag n a cs) = Tag n a cs # concat (map tags_of cs)"

definition soup_strings :: "soup \<Rightarrow> string list" where
  "soup_strings sp = concat (map strings_of sp)"

definition soup_tags :: "soup \<Rightarrow> node list" where
  "soup_tags sp = concat (map tags_of sp)"

definition soup_find_string :: "(string \<Rightarrow> bool) \<Rightarrow> soup \<Rightarrow> string option" where
  "soup_find_string f sp = find f (soup_strings sp)"

fun tag_matches :: "string \<Rightarrow> string \<Rightarrow> string \<Rightarrow> node \<Rightarrow> bool" where
  "tag_matches name k v (Tag n a cs) = (n = name \<and> map_of a k = Some v)"
| "tag_matches name k v (Text t) = False"
| "tag_matches name k v (Special t) = False"

definition soup_find :: "string \<Rightarrow> string \<Rightarrow> string \<Rightarrow> soup \<Rightarrow> node option" where
  "soup_find name k v sp = find (tag_matches name k v) (soup_tags sp)"

fun has_name :: "string \<Rightarrow> node \<Rightarrow> bool" where
  "has_name name (Tag n a cs) = (n = name)"
| "has_name name (Text t) = False"
| "has_name name (Special t) = False"

fun find_all :: "string \<Rightarrow> node \<Rightarrow> node list" where
  "find_all name (Tag n a cs) = filter (has_name name) (concat (map tags_of cs))"
| "find_all name (Text t) = []"
| "find_all name (Special t) = []"

definition tag_text :: "node \<Rightarrow> string" where
  "tag_text t = concat (text_strings t)"

definition is_space :: "char \<Rightarrow> bool" where
  "is_space c = (c \<in> set [CHR '' '', CHR 0x09, CHR 0x0A, CHR 0x0B, CHR 0x0C, CHR 0x0D,
                            CHR 0x1C, CHR 0x1D, CHR 0x1E, CHR 0x1F, CHR 0x85, CHR 0xA0])"

definition strip :: "string \<Rightarrow> string" where
  "strip t = rev (dropWhile is_space (rev (dropWhile is_space t)))"

definition get_text_strip :: "node \<Rightarrow> string" where
  "get_text_strip t = concat (filter (\<lambda>x. x \<noteq> []) (map strip (text_strings t)))"

fun join :: "string \<Rightarrow> string list \<Rightarrow> string" where
  "join sep [] = []"
| "join sep [t] = t"
| "join sep (t # u # ts) = t @ sep @ join sep (u # ts)"

section \<open>product\_scr.py: the Detail Extractor\<close>

text \<open>
  The table read by \<^verbatim>\<open>pd.read_csv('data/product_urls.csv')\<close>: a cell is a string or
  missing (NaN, what pandas makes of an empty field). \<open>dropna_URL\<close> is
  \<^verbatim>\<open>data.dropna(subset=["URL"])\<close> (line 47); \<open>urls\<close> and
  \<open>categories_column\<close> are the two columns as lists (lines 48-49: \<^verbatim>\<open>urls\<close> and
  \<^verbatim>\<open>categories\<close>; the other script has a list of that name too) and \<open>items\<close> is
  \<^verbatim>\<open>zip(urls, categories)\<close> of line 65. The lists hold the cells as they are: only
  \<open>dropna_URL\<close> removes a row.
\<close>

type_synonym cell = "string option"

record url_row =
  category :: cell
  URL :: cell

definition dropna_URL :: "url_row list \<Rightarrow> url_row list" where
  "dropna_URL data = filter (\<lambda>r. URL r \<noteq> None) data"

definition urls :: "url_row list \<Rightarrow> cell list" where
  "urls data = map URL (dropna_URL data)"

definition categories_column :: "url_row list \<Rightarrow> cell list" where
  "categories_column data = map category (dropna_URL data)"

definition items :: "url_row list \<Rightarrow> (cell \<times> cell) list" where
  "items data = zip (urls data) (categories_column data)"

text \<open>The rows of the two output tables.\<close>

record product =
  p_Category :: cell
  p_URL :: cell
  p_Brand :: "string option"
  p_Product_Name :: "string option"
  p_Ingredients :: "string option"

type_synonym skipped = "cell \<times> cell"

definition marker :: string where
  "marker = ''Sorry, this product is not available''"

text \<open>Lines 74-78: scrolling to the ingredients section, inside its own
  \<^verbatim>\<open>try: ... except Exception: pass\<close>.\<close>

definition scroll_to_ingredients :: "'d env \<Rightarrow> 'd session \<Rightarrow> (exn + unit) \<times> 'd session" where
  "scroll_to_ingredients env s =
     (case call (FindElement ''ingredients'') (wd_find_element env ''ingredients'') s of
        (Inl e, s1) \<Rightarrow> (if isinstance_Exception e then (Inr (), s1) else (Inl e, s1))
      | (Inr sect, s1) \<Rightarrow>
          (case call (ExecuteScript ''arguments[0].scrollIntoView();'' [sect])
                  (wd_execute_script env ''arguments[0].scrollIntoView();'' [sect]) s1 of
             (Inl e, s2) \<Rightarrow> (if isinstance_Exception e then (Inr (), s2) else (Inl e, s2))
           | (Inr u, s2) \<Rightarrow> (Inr (), s2)))"

text \<open>Line 68: \<^verbatim>\<open>driver.get(url)\<close> with the cell that the loop variable holds.\<close>

definition navigate :: "'d env \<Rightarrow> cell \<Rightarrow> 'd session \<Rightarrow> (exn + unit) \<times> 'd session" where
  "navigate env url s =
     (case url of
        None \<Rightarrow> call GetNaN (wd_get_nan env) s
      | Some u \<Rightarrow> call (Get u) (wd_get env u) s)"

text \<open>Lines 68-80: navigation, the wait for the body, the scroll, and the parse of
  \<^verbatim>\<open>driver.page_source\<close>. The first exception ends it.\<close>

definition load_page :: "'d env \<Rightarrow> cell \<Rightarrow> 'd session \<Rightarrow> (exn + soup) \<times> 'd session" where
  "load_page env url s =
     (case navigate env url s of
        (Inl e, s1) \<Rightarrow> (Inl e, s1)
      | (Inr u1, s1) \<Rightarrow>
     (case call Until (wd_until_body env) s1 of
        (Inl e, s2) \<Rightarrow> (Inl e, s2)
      | (Inr u2, s2) \<Rightarrow>
     (case scroll_to_ingredients env s2 of
        (Inl e, s3) \<Rightarrow> (Inl e, s3)
      | (Inr u3, s3) \<Rightarrow>
     (case call PageSource (wd_page_source env) s3 of
        (Inl e, s4) \<Rightarrow> (Inl e, s4)
      | (Inr src, s4) \<Rightarrow>
     (case html_parser env src of
        Inl e \<Rightarrow> (Inl e, s4)
      | Inr sp \<Rightarrow> (Inr sp, s4))))))"

text \<open>Lines 83-85: the test \<^verbatim>\<open>if soup.find(string=lambda text: text and marker in text)\<close>;
  the string found is truthy when it is not empty.\<close>

definition is_unavailable :: "soup \<Rightarrow> bool" where
  "is_unavailable sp =
     (case soup_find_string (\<lambda>t. t \<noteq> [] \<and> sublist marker t) sp of
        None \<Rightarrow> False
      | Some t \<Rightarrow> t \<noteq> [])"

text \<open>Lines 91-106: the three fields.\<close>

definition extract_name :: "soup \<Rightarrow> string option" where
  "extract_name sp =
     (case soup_find ''span'' ''data-at'' ''product_name'' sp of
        None \<Rightarrow> None
      | Some name_tag \<Rightarrow> Some (strip (tag_text name_tag)))"

definition extract_brand :: "soup \<Rightarrow> string option" where
  "extract_brand sp =
     (case soup_find ''a'' ''data-at'' ''brand_name'' sp of
        None \<Rightarrow> None
      | Some brand_tag \<Rightarrow> Some (strip (tag_text brand_tag)))"

definition extract_ingredients :: "soup \<Rightarrow> string option" where
  "extract_ingredients sp =
     (case soup_find ''div'' ''id'' ''ingredients'' sp of
        None \<Rightarrow> None
      | Some ingredient_div \<Rightarrow>
          (let divs = find_all ''div'' ingredient_div;
               texts = filter (\<lambda>x. x \<noteq> []) (map get_text_strip divs)
           in if texts \<noteq> [] then Some (join '' '' texts) else None))"

text \<open>
  Lines 66-122: the body of the \<^verbatim>\<open>for\<close> loop with its
  \<^verbatim>\<open>try: ... except Exception:\<close>. The state is the session and the two lists
  \<^verbatim>\<open>products\<close> and \<^verbatim>\<open>skipped_urls\<close>. The first component of the result
  is the exception that escapes the body, if one does. The steps after the parse work on the
  tree alone and raise nothing; the messages printed to the console are left out.
\<close>

type_synonym 'd run = "'d session \<times> product list \<times> skipped list"

definition process_item :: "'d env \<Rightarrow> cell \<times> cell \<Rightarrow> 'd run \<Rightarrow> exn option \<times> 'd run" where
  "process_item env item st =
     (case (item, st) of ((url, cat), (s, products, skipped_urls)) \<Rightarrow>
       (case load_page env url s of
          (Inl e, s1) \<Rightarrow>
            (if isinstance_Exception e then (None, (s1, products, skipped_urls))
             else (Some e, (s1, products, skipped_urls)))
        | (Inr sp, s1) \<Rightarrow>
            (if is_unavailable sp
             then (None, (s1, products, skipped_urls @ [(cat, url)]))
             else (None, (s1,
                     products @ [\<lparr>p_Category = cat, p_URL = url, p_Brand = extract_brand sp,
                                  p_Product_Name = extract_name sp,
                                  p_Ingredients = extract_ingredients sp\<rparr>],
                     skipped_urls)))))"

text \<open>Line 65: the \<^verbatim>\<open>for\<close> loop; an exception that escapes the body ends it.\<close>

fun scrape_loop :: "'d env \<Rightarrow> (cell \<times> cell) list \<Rightarrow> 'd run \<Rightarrow> exn option \<times> 'd run" where
  "scrape_loop env [] st = (None, st)"
| "scrape_loop env (item # rest) st =
     (case process_item env item st of
        (Some e, st') \<Rightarrow> (Some e, st')
      | (None, st') \<Rightarrow> scrape_loop env rest st')"

text \<open>
  Lines 59-130: \<^verbatim>\<open>main\<close>, from the acquired session on. The \<^verbatim>\<open>finally\<close>
  block calls \<^verbatim>\<open>driver.quit()\<close> however the loop ended; an exception raised by it
  replaces the one in flight. The result is the exception that leaves \<^verbatim>\<open>main\<close>, or
  the two tables written at the end.
\<close>

definition main :: "'d env \<Rightarrow> url_row list \<Rightarrow> 'd session \<Rightarrow> (exn + product list \<times> skipped list) \<times> 'd session" where
  "main env data s =
     (case scrape_loop env (items data) (s, [], []) of
        (esc, (s1, products, skipped_urls)) \<Rightarrow>
          (case call Quit (wd_quit env) s1 of
             (Inl e, s2) \<Rightarrow> (Inl e, s2)
           | (Inr u, s2) \<Rightarrow>
               (case esc of
                  Some e \<Rightarrow> (Inl e, s2)
                | None \<Rightarrow> (Inr (products, skipped_urls), s2))))"

section \<open>sephora\_scr.py: the Link Collector\<close>

text \<open>\<^verbatim>\<open>str(page)\<close> of a page number, for the f-string of line 46.\<close>

definition digit_char :: "nat \<Rightarrow> char" where
  "digit_char n = ''0123456789'' ! n"

function str_nat :: "nat \<Rightarrow> string" where
  "str_nat n = (if n < 10 then [digit_char n] else str_nat (n div 10) @ [digit_char (n mod 10)])"
  by pat_completeness auto
termination
  by (relation "measure id") auto

declare str_nat.simps [simp del]

definition str_int :: "int \<Rightarrow> string" where
  "str_int i = (if i < 0 then CHR ''-'' # str_nat (nat (- i)) else str_nat (nat i))"

definition page_url :: "string \<Rightarrow> string \<Rightarrow> int \<Rightarrow> string" where
  "page_url base_url cat page = base_url @ ''/'' @ cat @ ''?currentPage='' @ str_int page"

definition block_selector :: string where
  "block_selector = ''div.css-11ifn8v.e15t7owz0''"

definition anchor_xpath :: string where
  "anchor_xpath = ''.//a[contains(@href, '' @ [CHR 0x27] @ ''/product/'' @ [CHR 0x27] @ '')]''"

text \<open>A row of \<^verbatim>\<open>final_df\<close>: the columns \<^verbatim>\<open>category\<close> and
  \<^verbatim>\<open>URL\<close>. The frame starts empty with a range index and only grows by
  \<^verbatim>\<open>final_df.loc[len(final_df)] = row\<close>, which appends.\<close>

type_synonym link_row = "string \<times> string"

text \<open>
  Lines 55-67: the \<^verbatim>\<open>while scroll_attempts < 7\<close> loop. It need not end (a page
  whose block count never settles), so not returning is the value \<open>None\<close>. The result is
  \<^verbatim>\<open>product_blocks\<close> as the last iteration left it; \<^verbatim>\<open>current_count\<close>
  after the loop is its length. The \<^verbatim>\<open>time.sleep\<close> calls have no effect on the state.
\<close>

partial_function (option) scroll_loop ::
  "'d env \<Rightarrow> int \<Rightarrow> nat \<Rightarrow> element list \<Rightarrow> 'd session \<Rightarrow>
     ((exn + element list) \<times> 'd session) option" where
  "scroll_loop env previous_count scroll_attempts product_blocks s =
     (if scroll_attempts < 7 then
        (case call (FindElements block_selector) (wd_find_elements env block_selector) s of
           (Inl e, s1) \<Rightarrow> Some (Inl e, s1)
         | (Inr blocks, s1) \<Rightarrow>
             (case call (ExecuteScript ''window.scrollBy(0, 300);'' [])
                     (wd_execute_script env ''window.scrollBy(0, 300);'' []) s1 of
                (Inl e, s2) \<Rightarrow> Some (Inl e, s2)
              | (Inr u, s2) \<Rightarrow>
                  scroll_loop env (int (length blocks))
                    (if int (length blocks) = previous_count then scroll_attempts + 1 else 0)
                    blocks s2))
      else Some (Inr product_blocks, s))"

declare scroll_loop.simps [code]

text \<open>Lines 76-80: the anchors of one block. \<^verbatim>\<open>href\<close> is truthy when it is a
  string that is not empty.\<close>

fun anchors_loop ::
  "'d env \<Rightarrow> string \<Rightarrow> element list \<Rightarrow> string set \<times> link_row list \<Rightarrow> 'd session \<Rightarrow>
     (exn + string set \<times> link_row list) \<times> 'd session" where
  "anchors_loop env cat [] acc s = (Inr acc, s)"
| "anchors_loop env cat (anchor # anchors) (all_hrefs, final_df) s =
     (case call (GetAttribute anchor ''href'') (wd_get_attribute env anchor ''href'') s of
        (Inl e, s1) \<Rightarrow> (Inl e, s1)
      | (Inr href, s1) \<Rightarrow>
          (case href of
             None \<Rightarrow> anchors_loop env cat anchors (all_hrefs, final_df) s1
           | Some h \<Rightarrow>
               (if h \<noteq> [] \<and> h \<notin> all_hrefs
                then anchors_loop env cat anchors (insert h all_hrefs, final_df @ [(cat, h)]) s1
                else anchors_loop env cat anchors (all_hrefs, final_df) s1)))"

text \<open>Lines 74-80: the blocks of one page.\<close>

fun blocks_loop ::
  "'d env \<Rightarrow> string \<Rightarrow> element list \<Rightarrow> string set \<times> link_row list \<Rightarrow> 'd session \<Rightarrow>
     (exn + string set \<times> link_row list) \<times> 'd session" where
  "blocks_loop env cat [] acc s = (Inr acc, s)"
| "blocks_loop env cat (block # blocks) acc s =
     (case call (ElemFindElements block anchor_xpath)
             (wd_elem_find_elements env block anchor_xpath) s of
        (Inl e, s1) \<Rightarrow> (Inl e, s1)
      | (Inr anchors, s1) \<Rightarrow>
          (case anchors_loop env cat anchors acc s1 of
             (Inl e, s2) \<Rightarrow> (Inl e, s2)
           | (Inr acc', s2) \<Rightarrow> blocks_loop env cat blocks acc' s2))"

text \<open>Lines 46-67: loading one listing page and scrolling it until the count settles.\<close>

definition scroll_page ::
  "'d env \<Rightarrow> string \<Rightarrow> 'd session \<Rightarrow> ((exn + element list) \<times> 'd session) option" where
  "scroll_page env url s =
     (case call (Get url) (wd_get env url) s of
        (Inl e, s1) \<Rightarrow> Some (Inl e, s1)
      | (Inr u1, s1) \<Rightarrow>
          (case call (ExecuteScript ''window.scrollBy(0, 1);'' [])
                  (wd_execute_script env ''window.scrollBy(0, 1);'' []) s1 of
             (Inl e, s2) \<Rightarrow> Some (Inl e, s2)
           | (Inr u2, s2) \<Rightarrow> scroll_loop env (- 1) 0 [] s2))"

text \<open>Lines 45-80: the \<^verbatim>\<open>for page in range(1, max_pages + 1)\<close> loop, over the
  page numbers still to visit; \<^verbatim>\<open>break\<close> when the settled count is 0.\<close>

fun pages_loop ::
  "'d env \<Rightarrow> string \<Rightarrow> string \<Rightarrow> int list \<Rightarrow> string set \<times> link_row list \<Rightarrow> 'd session \<Rightarrow>
     ((exn + string set \<times> link_row list) \<times> 'd session) option" where
  "pages_loop env base_url cat [] acc s = Some (Inr acc, s)"
| "pages_loop env base_url cat (page # pages) acc s =
     (case scroll_page env (page_url base_url cat page) s of
        None \<Rightarrow> None
      | Some (Inl e, s1) \<Rightarrow> Some (Inl e, s1)
      | Some (Inr product_blocks, s1) \<Rightarrow>
          (if int (length product_blocks) = 0 then Some (Inr acc, s1)
           else (case blocks_loop env cat product_blocks acc s1 of
                   (Inl e, s2) \<Rightarrow> Some (Inl e, s2)
                 | (Inr acc', s2) \<Rightarrow> pages_loop env base_url cat pages acc' s2)))"

text \<open>Lines 24-81: \<^verbatim>\<open>all_hrefs = set()\<close>, the page loop, and
  \<^verbatim>\<open>return final_df\<close>.\<close>

definition scrape_all_paginated_products ::
  "'d env \<Rightarrow> string \<Rightarrow> string \<Rightarrow> link_row list \<Rightarrow> int \<Rightarrow> 'd session \<Rightarrow>
     ((exn + link_row list) \<times> 'd session) option" where
  "scrape_all_paginated_products env base_url cat final_df max_pages s =
     (case pages_loop env base_url cat [1..max_pages] ({}, final_df) s of
        None \<Rightarrow> None
      | Some (Inl e, s1) \<Rightarrow> Some (Inl e, s1)
      | Some (Inr (all_hrefs, df), s1) \<Rightarrow> Some (Inr df, s1))"

text \<open>Lines 94-100.\<close>

definition categories :: "string list" where
  "categories = [''cleanser'', ''facial-treatments'', ''moisturizing-cream-oils-mists'',
                 ''lip-balm-lip-care'', ''face-mask'', ''sunscreen-sun-protection'',
                 ''eye-treatment-dark-circle-treatment'']"

text \<open>Lines 104-105: the loop over the categories, with the default
  \<^verbatim>\<open>max_pages=50\<close>. Nothing catches an exception here.\<close>

fun categories_loop ::
  "'d env \<Rightarrow> string list \<Rightarrow> link_row list \<Rightarrow> 'd session \<Rightarrow>
     ((exn + link_row list) \<times> 'd session) option" where
  "categories_loop env [] final_df s = Some (Inr final_df, s)"
| "categories_loop env (cat # cats) final_df s =
     (case scrape_all_paginated_products env ''https://www.sephora.com/shop'' cat final_df 50 s of
        None \<Rightarrow> None
      | Some (Inl e, s1) \<Rightarrow> Some (Inl e, s1)
      | Some (Inr df, s1) \<Rightarrow> categories_loop env cats df s1)"

text \<open>
  Lines 101-110: the script from the acquired driver on. \<^verbatim>\<open>driver.quit()\<close> is the
  statement after the loop, reached only when the loop raised nothing. The result is the
  exception that ends the script, or the table written to
  \<^verbatim>\<open>product_urls_full.csv\<close>.
\<close>

definition sephora_scr :: "'d env \<Rightarrow> 'd session \<Rightarrow> ((exn + link_row list) \<times> 'd session) option" where
  "sephora_scr env s =
     (case categories_loop env categories [] s of
        None \<Rightarrow> None
      | Some (Inl e, s1) \<Rightarrow> Some (Inl e, s1)
      | Some (Inr final_df, s1) \<Rightarrow>
          (case call Quit (wd_quit env) s1 of
             (Inl e, s2) \<Rightarrow> Some (Inl e, s2)
           | (Inr u, s2) \<Rightarrow> Some (Inr final_df, s2)))"

section \<open>Notions used in the statements\<close>

text \<open>The URLs navigated to, in order, among a list of driver calls.\<close>

fun gets :: "event list \<Rightarrow> string list" where
  "gets [] = []"
| "gets (Get u # evs) = u # gets evs"
| "gets (ev # evs) = gets evs"

text \<open>What became of an input item of the Detail Extractor, and the items of a list that
  carry a given label.\<close>

datatype outcome = Extracted | Skipped | Dropped

definition picked :: "outcome \<Rightarrow> 'a list \<Rightarrow> outcome list \<Rightarrow> 'a list" where
  "picked l xs labels = map fst (filter (\<lambda>x. snd x = l) (zip xs labels))"

text \<open>The key of a row of either output table: the URL and the category of the item it
  came from.\<close>

definition product_key :: "product \<Rightarrow> cell \<times> cell" where
  "product_key p = (p_URL p, p_Category p)"

definition skipped_key :: "skipped \<Rightarrow> cell \<times> cell" where
  "skipped_key x = (snd x, fst x)"

text \<open>The text of a parsed page, \<^verbatim>\<open>soup.get_text()\<close>: its plain text strings put
  together.\<close>

definition soup_text :: "soup \<Rightarrow> string" where
  "soup_text sp = concat (concat (map text_strings sp))"

text \<open>A result of one of the loops of the Link Collector, with rows put in front of
  its table.\<close>

definition with_rows ::
  "link_row list \<Rightarrow> exn + string set \<times> link_row list \<Rightarrow> exn + string set \<times> link_row list" where
  "with_rows df0 r = (case r of Inl e \<Rightarrow> Inl e | Inr (H, df) \<Rightarrow> Inr (H, df0 @ df))"

text \<open>\<open>rows\<close> are the rows a loop appended for category \<open>cat\<close> while the set of seen
  URLs grew from \<open>H\<close> to \<open>H'\<close>: their URLs are new, pairwise different, and now seen.\<close>

definition fresh_rows :: "string \<Rightarrow> string set \<Rightarrow> string set \<Rightarrow> link_row list \<Rightarrow> bool" where
  "fresh_rows cat H H' rows =
     (H' = H \<union> snd ` set rows \<and> distinct (map snd rows) \<and> snd ` set rows \<inter> H = {} \<and>
      fst ` set rows \<subseteq> {cat})"

text \<open>The values of \<^verbatim>\<open>anchor.get_attribute("href")\<close> that the loop over the
  anchors of one block reads (line 77), in order, up to the first read that raises.\<close>

fun hrefs_read :: "'d env \<Rightarrow> element list \<Rightarrow> 'd session \<Rightarrow> string option list" where
  "hrefs_read env [] s = []"
| "hrefs_read env (anchor # anchors) s =
     (case call (GetAttribute anchor ''href'') (wd_get_attribute env anchor ''href'') s of
        (Inl e, s1) \<Rightarrow> []
      | (Inr href, s1) \<Rightarrow> href # hrefs_read env anchors s1)"

text \<open>
  The pages 1 to \<open>n\<close> of a category were each loaded and scrolled, each showed at least one
  block, and the links of each were collected without an exception: \<open>before_page\<close> gives the
  seen set, the table and the session after page \<open>n\<close>, that is, before page \<open>n + 1\<close>, and
  \<open>None\<close> when one of these pages raised, did not return, or showed no block.
\<close>

fun before_page ::
  "'d env \<Rightarrow> string \<Rightarrow> string \<Rightarrow> nat \<Rightarrow> string set \<times> link_row list \<Rightarrow> 'd session \<Rightarrow>
     ((string set \<times> link_row list) \<times> 'd session) option" where
  "before_page env base_url cat 0 acc s = Some (acc, s)"
| "before_page env base_url cat (Suc n) acc s =
     (case before_page env base_url cat n acc s of
        None \<Rightarrow> None
      | Some (acc1, s1) \<Rightarrow>
          (case scroll_page env (page_url base_url cat (int n + 1)) s1 of
             None \<Rightarrow> None
           | Some (Inl e, s2) \<Rightarrow> None
           | Some (Inr product_blocks, s2) \<Rightarrow>
               (if product_blocks = [] then None
                else (case blocks_loop env cat product_blocks acc1 s2 of
                        (Inl e, s3) \<Rightarrow> None
                      | (Inr acc2, s3) \<Rightarrow> Some (acc2, s3)))))"

text \<open>From \<open>s\<close> to \<open>s'\<close> the driver was called without any navigation and without
  \<^verbatim>\<open>quit\<close>; and the same with the navigations listed.\<close>

definition quiet :: "'d session \<Rightarrow> 'd session \<Rightarrow> bool" where
  "quiet s s' = (\<exists>evs. calls s' = calls s @ evs \<and> gets evs = [] \<and> Quit \<notin> set evs)"

definition visited :: "'d session \<Rightarrow> 'd session \<Rightarrow> string list \<Rightarrow> bool" where
  "visited s s' us = (\<exists>evs. calls s' = calls s @ evs \<and> gets evs = us \<and> Quit \<notin> set evs)"

text \<open>One pass through the body of the scroll loop (lines 56-67), giving the blocks it
  read, and \<open>n\<close> passes in a row with the lists of blocks they read (\<open>None\<close> when one of
  them raises).\<close>

definition scroll_step :: "'d env \<Rightarrow> 'd session \<Rightarrow> (exn + element list) \<times> 'd session" where
  "scroll_step env s =
     (case call (FindElements block_selector) (wd_find_elements env block_selector) s of
        (Inl e, s1) \<Rightarrow> (Inl e, s1)
      | (Inr blocks, s1) \<Rightarrow>
          (case call (ExecuteScript ''window.scrollBy(0, 300);'' [])
                  (wd_execute_script env ''window.scrollBy(0, 300);'' []) s1 of
             (Inl e, s2) \<Rightarrow> (Inl e, s2)
           | (Inr u, s2) \<Rightarrow> (Inr blocks, s2)))"

fun reads :: "'d env \<Rightarrow> nat \<Rightarrow> 'd session \<Rightarrow> (element list list \<times> 'd session) option" where
  "reads env 0 s = Some ([], s)"
| "reads env (Suc n) s =
     (case scroll_step env s of
        (Inl e, s1) \<Rightarrow> None
      | (Inr blocks, s1) \<Rightarrow>
          (case reads env n s1 of
             None \<Rightarrow> None
           | Some (bs, s') \<Rightarrow> Some (blocks # bs, s')))"

text \<open>The counter \<^verbatim>\<open>scroll_attempts\<close> of lines 59-64 after the counts \<open>cs\<close> were
  read, starting from \<^verbatim>\<open>previous_count\<close> and the counter given.\<close>

fun attempts_after :: "int \<Rightarrow> nat \<Rightarrow> nat list \<Rightarrow> nat" where
  "attempts_after prev a [] = a"
| "attempts_after prev a (c # cs) =
     attempts_after (int c) (if int c = prev then a + 1 else 0) cs"

text \<open>
  The words of the specification. Read \<open>i\<close> of a sequence of counts is unchanged when it
  has a read before it and gives the same count; the first read has none before it. The
  sequence is settled at \<open>n\<close> when the 7 reads before position \<open>n\<close> were all unchanged.
\<close>

definition unchanged_read :: "nat list \<Rightarrow> nat \<Rightarrow> bool" where
  "unchanged_read cs i = (0 < i \<and> i < length cs \<and> cs ! i = cs ! (i - 1))"

definition settled :: "nat list \<Rightarrow> nat \<Rightarrow> bool" where
  "settled cs n = (7 \<le> n \<and> n \<le> length cs \<and> (\<forall>i\<in>{n - 7..<n}. unchanged_read cs i))"

section \<open>A scripted browser for the Detail Extractor\<close>

text \<open>
  A driver whose state is the URL it last loaded. Navigation to \<open>stop_url\<close> is
  interrupted by the operator, navigation to a missing value is refused, the wait on
  \<open>slow_url\<close> times out, no page has an element with id \<^verbatim>\<open>ingredients\<close> for
  selenium to scroll to, and the page source is the URL, which the parser maps to the page
  it stands for. On \<open>split_page\<close> the words of the marker are spread over three strings.
\<close>

definition gone_url :: string where
  "gone_url = ''https://www.sephora.com/product/gone-P1''"

definition balm_url :: string where
  "balm_url = ''https://www.sephora.com/product/balm-P2''"

definition slow_url :: string where
  "slow_url = ''https://www.sephora.com/product/slow-P3''"

definition stop_url :: string where
  "stop_url = ''https://www.sephora.com/product/stop-P4''"

definition split_url :: string where
  "split_url = ''https://www.sephora.com/product/split-P5''"

definition gone_page :: soup where
  "gone_page = [Tag ''body'' []
     [Tag ''h1'' [] [Text ''Sorry, this product is not available''],
      Tag ''span'' [(''data-at'', ''product_name'')] [Text ''Old Balm''],
      Tag ''a'' [(''data-at'', ''brand_name'')] [Text ''Acme''],
      Tag ''div'' [(''id'', ''ingredients'')] [Tag ''div'' [] [Text ''Water'']]]]"

definition balm_page :: soup where
  "balm_page = [Tag ''body'' []
     [Tag ''span'' [(''data-at'', ''product_name'')] [Text '' Lip Balm '']]]"

definition split_page :: soup where
  "split_page = [Tag ''body'' []
     [Tag ''p'' [] [Text ''Sorry, '', Tag ''b'' [] [Text ''this product''],
                    Text '' is not available''],
      Tag ''span'' [(''data-at'', ''product_name'')] [Text ''Old Balm'']]]"

definition detail_env :: "string env" where
  "detail_env = \<lparr>
     wd_get = (\<lambda>url d. if url = stop_url then (Inl (SystemExiting ''KeyboardInterrupt''), d)
                        else (Inr (), url)),
     wd_get_nan = (\<lambda>d. (Inl (Exception ''InvalidArgumentException''), d)),
     wd_until_body = (\<lambda>d. if d = slow_url then (Inl (Exception ''TimeoutException''), d)
                          else (Inr (), d)),
     wd_find_element = (\<lambda>i d. (Inl (Exception ''NoSuchElementException''), d)),
     wd_find_elements = (\<lambda>c d. (Inr [], d)),
     wd_elem_find_elements = (\<lambda>b x d. (Inr [], d)),
     wd_get_attribute = (\<lambda>a k d. (Inr None, d)),
     wd_execute_script = (\<lambda>c args d. (Inr (), d)),
     wd_page_source = (\<lambda>d. (Inr d, d)),
     wd_quit = (\<lambda>d. (Inr (), d)),
     html_parser = (\<lambda>src. if src = gone_url then Inr gone_page
                            else if src = balm_url then Inr balm_page
                            else if src = split_url then Inr split_page else Inr [])\<rparr>"

definition fresh :: "string session" where
  "fresh = \<lparr>drv = ''about:blank'', calls = []\<rparr>"

definition demo_data :: "url_row list" where
  "demo_data = [\<lparr>category = Some ''lip'', URL = Some gone_url\<rparr>,
                \<lparr>category = Some ''lip'', URL = None\<rparr>,
                \<lparr>category = Some ''lip'', URL = Some slow_url\<rparr>,
                \<lparr>category = Some ''lip'', URL = Some balm_url\<rparr>]"

definition stop_data :: "url_row list" where
  "stop_data = [\<lparr>category = Some ''lip'', URL = Some gone_url\<rparr>,
                \<lparr>category = Some ''lip'', URL = Some stop_url\<rparr>,
                \<lparr>category = Some ''lip'', URL = Some balm_url\<rparr>]"

definition balm_product :: product where
  "balm_product = \<lparr>p_Category = Some ''lip'', p_URL = Some balm_url, p_Brand = None,
                     p_Product_Name = Some ''Lip Balm'', p_Ingredients = None\<rparr>"

section \<open>Scripted browsers for the Link Collector\<close>

text \<open>
  A driver whose state is the number of product blocks on the page it last loaded: one
  block on the first listing page of the categories cleanser and facial-treatments, none on
  any other page. Every block holds two anchors, and every anchor links to the same product.
  \<open>offline_env\<close> is the same driver with a navigation that always fails.
\<close>

definition shared_href :: string where
  "shared_href = ''https://www.sephora.com/product/shared-P9''"

definition listing_env :: "nat env" where
  "listing_env = \<lparr>
     wd_get = (\<lambda>url d.
        if url = ''https://www.sephora.com/shop/cleanser?currentPage=1'' \<or>
           url = ''https://www.sephora.com/shop/facial-treatments?currentPage=1''
        then (Inr (), 1) else (Inr (), 0)),
     wd_get_nan = (\<lambda>d. (Inl (Exception ''InvalidArgumentException''), d)),
     wd_until_body = (\<lambda>d. (Inr (), d)),
     wd_find_element = (\<lambda>i d. (Inl (Exception ''NoSuchElementException''), d)),
     wd_find_elements = (\<lambda>c d. (Inr (replicate d ''block''), d)),
     wd_elem_find_elements = (\<lambda>b x d. (Inr [''anchor-1'', ''anchor-2''], d)),
     wd_get_attribute = (\<lambda>a k d. (Inr (Some shared_href), d)),
     wd_execute_script = (\<lambda>c args d. (Inr (), d)),
     wd_page_source = (\<lambda>d. (Inr [], d)),
     wd_quit = (\<lambda>d. (Inr (), d)),
     html_parser = (\<lambda>src. Inr [])\<rparr>"

definition offline_env :: "nat env" where
  "offline_env = listing_env\<lparr>wd_get := (\<lambda>url d. (Inl (Exception ''WebDriverException''), d))\<rparr>"

definition start :: "nat session" where
  "start = \<lparr>drv = 0, calls = []\<rparr>"

text \<open>
  The sessions of \<open>listing_env\<close> after page 1 of the category cleanser (loaded, scrolled
  until the count of one block settled after 8 reads, its two anchors read) and after the
  scroll of page 2, which shows no block.
\<close>

definition after_page1 :: "nat session" where
  "after_page1 =
     \<lparr>drv = 1,
       calls = [Get ''https://www.sephora.com/shop/cleanser?currentPage=1'',
                ExecuteScript ''window.scrollBy(0, 1);'' []] @
               concat (replicate 8 [FindElements block_selector,
                                    ExecuteScript ''window.scrollBy(0, 300);'' []]) @
               [ElemFindElements ''block'' anchor_xpath,
                GetAttribute ''anchor-1'' ''href'', GetAttribute ''anchor-2'' ''href'']\<rparr>"

definition after_page2 :: "nat session" where
  "after_page2 =
     \<lparr>drv = 0,
       calls = calls after_page1 @
               [Get ''https://www.sephora.com/shop/cleanser?currentPage=2'',
                ExecuteScript ''window.scrollBy(0, 1);'' []] @
               concat (replicate 8 [FindElements block_selector,
                                    ExecuteScript ''window.scrollBy(0, 300);'' []])\<rparr>"

text \<open>
  A driver for one lazily loaded listing page. Its state is the number of scrolls made so
  far: the page shows 3 blocks before the first scroll and 5 blocks after it.
\<close>

definition lazy_env :: "nat env" where
  "lazy_env = \<lparr>
     wd_get = (\<lambda>url d. (Inr (), 0)),
     wd_get_nan = (\<lambda>d. (Inl (Exception ''InvalidArgumentException''), d)),
     wd_until_body = (\<lambda>d. (Inr (), d)),
     wd_find_element = (\<lambda>i d. (Inl (Exception ''NoSuchElementException''), d)),
     wd_find_elements = (\<lambda>c d. (Inr (replicate (if d = 0 then 3 else 5) ''block''), d)),
     wd_elem_find_elements = (\<lambda>b x d. (Inr [], d)),
     wd_get_attribute = (\<lambda>a k d. (Inr None, d)),
     wd_execute_script = (\<lambda>c args d. (Inr (), Suc d)),
     wd_page_source = (\<lambda>d. (Inr [], d)),
     wd_quit = (\<lambda>d. (Inr (), d)),
     html_parser = (\<lambda>src. Inr [])\<rparr>"

section \<open>The Detail Extractor: properties\<close>

lemma gets_append [simp]: "gets (xs @ ys) = gets xs @ gets ys"
  by (induction xs rule: gets.induct) auto

lemma call_calls: "call ev f s = (r, s') \<Longrightarrow> calls s' = calls s @ [ev]"
  by (auto simp: call_def split: prod.splits)

lemma scroll_to_ingredients_calls:
  assumes "scroll_to_ingredients env s = (r, s')"
  shows "\<exists>evs. calls s' = calls s @ evs \<and> gets evs = [] \<and> Quit \<notin> set evs \<and> GetNaN \<notin> set evs"
  using assms unfolding scroll_to_ingredients_def
  by (auto split: prod.splits sum.splits if_splits dest!: call_calls)

lemma navigate_calls:
  assumes "navigate env url s = (r, s')"
  shows "calls s' = calls s @ [case url of None \<Rightarrow> GetNaN | Some u \<Rightarrow> Get u]"
  using assms by (auto simp: navigate_def split: option.splits dest!: call_calls)

lemma load_page_calls:
  assumes "load_page env url s = (r, s')"
  shows "\<exists>evs. calls s' = calls s @ evs \<and> gets evs = List.map_filter (\<lambda>u. u) [url] \<and>
           Quit \<notin> set evs \<and> (GetNaN \<in> set evs \<longrightarrow> url = None)"
proof -
  obtain r1 s1 where n: "navigate env url s = (r1, s1)" by (cases "navigate env url s")
  from navigate_calls [OF n]
  have c1: "calls s1 = calls s @ [case url of None \<Rightarrow> GetNaN | Some u \<Rightarrow> Get u]" .
  have "\<exists>evs. calls s' = calls s1 @ evs \<and> gets evs = [] \<and> Quit \<notin> set evs \<and> GetNaN \<notin> set evs"
    using assms n unfolding load_page_def
    by (auto split: prod.splits sum.splits dest!: call_calls scroll_to_ingredients_calls)
  then obtain evs where
    "calls s' = calls s1 @ evs" "gets evs = []" "Quit \<notin> set evs" "GetNaN \<notin> set evs" by blast
  with c1 show ?thesis
    by (cases url) (auto simp: map_filter_simps)
qed

lemma process_item_calls:
  assumes "process_item env (url, cat) (s, ps, sk) = (esc, (s', ps', sk'))"
  shows "\<exists>evs. calls s' = calls s @ evs \<and> gets evs = List.map_filter (\<lambda>u. u) [url] \<and>
           Quit \<notin> set evs \<and> (GetNaN \<in> set evs \<longrightarrow> url = None)"
proof -
  obtain r s1 where lp: "load_page env url s = (r, s1)" by (cases "load_page env url s")
  with assms have "s' = s1"
    by (auto simp: process_item_def split: sum.splits if_splits)
  with load_page_calls [OF lp] show ?thesis by simp
qed

lemma map_filter_append: "List.map_filter f (xs @ ys) = List.map_filter f xs @ List.map_filter f ys"
  by (simp add: List.map_filter_def)

lemma scrape_loop_calls:
  "scrape_loop env its (s, ps, sk) = (esc, (s', ps', sk')) \<Longrightarrow>
   \<exists>evs. calls s' = calls s @ evs \<and> prefix (gets evs) (List.map_filter (\<lambda>u. u) (map fst its)) \<and>
         (esc = None \<longrightarrow> gets evs = List.map_filter (\<lambda>u. u) (map fst its)) \<and> Quit \<notin> set evs \<and>
         (GetNaN \<in> set evs \<longrightarrow> None \<in> fst ` set its)"
proof (induction its arbitrary: s ps sk)
  case Nil
  then show ?case by (simp add: map_filter_simps)
next
  case (Cons item rest)
  obtain url cat where item: "item = (url, cat)" by (cases item)
  obtain e1 s1 ps1 sk1 where p: "process_item env (url, cat) (s, ps, sk) = (e1, (s1, ps1, sk1))"
    by (metis prod_cases3)
  from process_item_calls [OF p] obtain evs1 where
    evs1: "calls s1 = calls s @ evs1" "gets evs1 = List.map_filter (\<lambda>u. u) [url]" "Quit \<notin> set evs1"
      "GetNaN \<in> set evs1 \<longrightarrow> url = None" by blast
  have split: "List.map_filter (\<lambda>u. u) (map fst (item # rest)) =
      List.map_filter (\<lambda>u. u) [url] @ List.map_filter (\<lambda>u. u) (map fst rest)"
    using item map_filter_append [of "\<lambda>u. u" "[url]" "map fst rest"] by simp
  show ?case
  proof (cases e1)
    case (Some e)
    with Cons.prems p item have "s' = s1" "esc = Some e" by auto
    with evs1 split item show ?thesis
      by (cases url) (auto simp: image_iff map_filter_simps)
  next
    case None
    with Cons.prems p item have "scrape_loop env rest (s1, ps1, sk1) = (esc, (s', ps', sk'))"
      by simp
    from Cons.IH [OF this] obtain evs2 where
      evs2: "calls s' = calls s1 @ evs2" "prefix (gets evs2) (List.map_filter (\<lambda>u. u) (map fst rest))"
      "esc = None \<longrightarrow> gets evs2 = List.map_filter (\<lambda>u. u) (map fst rest)" "Quit \<notin> set evs2"
      "GetNaN \<in> set evs2 \<longrightarrow> None \<in> fst ` set rest" by blast
    with evs1 split item show ?thesis
      by (cases url) (auto simp: image_iff map_filter_simps gets_append)
  qed
qed

lemma scrape_loop_append:
  "scrape_loop env (xs @ ys) st =
     (case scrape_loop env xs st of
        (Some e, st') \<Rightarrow> (Some e, st')
      | (None, st') \<Rightarrow> scrape_loop env ys st')"
  by (induction xs arbitrary: st) (auto split: prod.splits option.splits)

lemma marker_not_empty: "sublist marker t \<Longrightarrow> t \<noteq> []"
  by (auto simp: marker_def)

lemma is_unavailable_iff:
  "is_unavailable sp \<longleftrightarrow> (\<exists>t\<in>set (soup_strings sp). sublist marker t)"
proof
  assume "is_unavailable sp"
  then obtain t where "find (\<lambda>t. t \<noteq> [] \<and> sublist marker t) (soup_strings sp) = Some t"
    by (auto simp: is_unavailable_def soup_find_string_def split: option.splits)
  then show "\<exists>t\<in>set (soup_strings sp). sublist marker t"
    by (auto simp: find_Some_iff)
next
  assume "\<exists>t\<in>set (soup_strings sp). sublist marker t"
  then obtain t where t: "t \<in> set (soup_strings sp)" "sublist marker t" by blast
  then have "find (\<lambda>t. t \<noteq> [] \<and> sublist marker t) (soup_strings sp) \<noteq> None"
    by (auto simp: find_None_iff dest: marker_not_empty)
  then obtain t' where f: "find (\<lambda>t. t \<noteq> [] \<and> sublist marker t) (soup_strings sp) = Some t'"
    by blast
  then have "t' \<noteq> []" by (auto simp: find_Some_iff)
  with f show "is_unavailable sp"
    by (simp add: is_unavailable_def soup_find_string_def)
qed

text \<open>
  Claim C3 (unavailability precedence), as amended: for a page that has the marker inside
  one of its strings. Whenever the page of a URL was loaded and parsed and one string of the
  tree, of any kind, contains the marker "Sorry, this product is not available", the body of
  the loop appends (category, URL) to \<^verbatim>\<open>skipped_urls\<close>, leaves
  \<^verbatim>\<open>products\<close> as it was and raises nothing, whatever else the page holds: the
  marker is tested before any field is extracted.
\<close>

theorem unavailability_precedence:
  assumes "load_page env url s = (Inr sp, s1)"
    and "\<exists>t\<in>set (soup_strings sp). sublist marker t"
  shows "process_item env (url, cat) (s, products, skipped_urls) =
           (None, (s1, products, skipped_urls @ [(cat, url)]))"
  using assms by (simp add: process_item_def is_unavailable_iff)

lemma soup_find_None_iff:
  "soup_find name k v sp = None \<longleftrightarrow> \<not> (\<exists>t\<in>set (soup_tags sp). tag_matches name k v t)"
  by (auto simp: soup_find_def find_None_iff)

text \<open>
  Claim C8 (partial extraction). Whenever the page of a URL was loaded and parsed and no text
  node contains the marker, the body of the loop appends exactly one record to
  \<^verbatim>\<open>products\<close> and nothing to \<^verbatim>\<open>skipped_urls\<close>. The record carries the
  category and the URL; its name is absent exactly when no
  \<^verbatim>\<open>span[data-at=product_name]\<close> is on the page, its brand is absent exactly when no
  \<^verbatim>\<open>a[data-at=brand_name]\<close> is, each independently of the other, and its ingredients
  are absent when no \<^verbatim>\<open>div#ingredients\<close> is.
\<close>

theorem partial_extraction:
  assumes "load_page env url s = (Inr sp, s1)"
    and "\<not> (\<exists>t\<in>set (soup_strings sp). sublist marker t)"
  shows "\<exists>p. process_item env (url, cat) (s, products, skipped_urls) =
               (None, (s1, products @ [p], skipped_urls)) \<and>
             p_Category p = cat \<and> p_URL p = url \<and>
             (p_Product_Name p = None \<longleftrightarrow>
                \<not> (\<exists>t\<in>set (soup_tags sp). tag_matches ''span'' ''data-at'' ''product_name'' t)) \<and>
             (p_Brand p = None \<longleftrightarrow>
                \<not> (\<exists>t\<in>set (soup_tags sp). tag_matches ''a'' ''data-at'' ''brand_name'' t)) \<and>
             (\<not> (\<exists>t\<in>set (soup_tags sp). tag_matches ''div'' ''id'' ''ingredients'' t) \<longrightarrow>
                p_Ingredients p = None)"
proof -
  have n: "(extract_name sp = None) =
        (\<not> (\<exists>t\<in>set (soup_tags sp). tag_matches ''span'' ''data-at'' ''product_name'' t))"
    using soup_find_None_iff [of "''span''" "''data-at''" "''product_name''" sp]
    by (auto simp: extract_name_def split: option.splits)
  have b: "(extract_brand sp = None) =
        (\<not> (\<exists>t\<in>set (soup_tags sp). tag_matches ''a'' ''data-at'' ''brand_name'' t))"
    using soup_find_None_iff [of "''a''" "''data-at''" "''brand_name''" sp]
    by (auto simp: extract_brand_def split: option.splits)
  have i: "\<not> (\<exists>t\<in>set (soup_tags sp). tag_matches ''div'' ''id'' ''ingredients'' t) \<Longrightarrow>
        extract_ingredients sp = None"
    using soup_find_None_iff [of "''div''" "''id''" "''ingredients''" sp]
    by (auto simp: extract_ingredients_def split: option.splits)
  from assms have "process_item env (url, cat) (s, products, skipped_urls) =
     (None, (s1, products @ [\<lparr>p_Category = cat, p_URL = url, p_Brand = extract_brand sp,
                                  p_Product_Name = extract_name sp,
                                  p_Ingredients = extract_ingredients sp\<rparr>], skipped_urls))"
    by (simp add: process_item_def is_unavailable_iff)
  with n b i show ?thesis by simp
qed

lemma main_calls:
  assumes "main env data s = (r, s')"
  shows "\<exists>evs. calls s' = calls s @ evs @ [Quit] \<and> Quit \<notin> set evs \<and>
           prefix (gets evs) (List.map_filter (\<lambda>u. u) (map fst (items data))) \<and>
           ((\<exists>out. r = Inr out) \<longrightarrow> gets evs = List.map_filter (\<lambda>u. u) (map fst (items data))) \<and>
           (GetNaN \<in> set evs \<longrightarrow> None \<in> fst ` set (items data))"
proof -
  obtain esc s1 ps sk where l: "scrape_loop env (items data) (s, [], []) = (esc, (s1, ps, sk))"
    by (metis prod_cases3)
  from scrape_loop_calls [OF l] obtain evs where
    evs: "calls s1 = calls s @ evs" "prefix (gets evs) (List.map_filter (\<lambda>u. u) (map fst (items data)))"
      "esc = None \<longrightarrow> gets evs = List.map_filter (\<lambda>u. u) (map fst (items data))" "Quit \<notin> set evs"
      "GetNaN \<in> set evs \<longrightarrow> None \<in> fst ` set (items data)" by blast
  obtain q s2 where q: "call Quit (wd_quit env) s1 = (q, s2)" by (cases "call Quit (wd_quit env) s1")
  from call_calls [OF q] have c2: "calls s2 = calls s1 @ [Quit]" .
  from assms l q have "s' = s2" and "(\<exists>out. r = Inr out) \<longrightarrow> esc = None"
    by (auto simp: main_def split: sum.splits option.splits)
  with evs c2 show ?thesis by auto
qed

lemma items_fst: "map fst (items data) = urls data"
  by (simp add: items_def urls_def categories_column_def)

lemma urls_present: "None \<notin> set (urls data)"
  by (auto simp: urls_def dropna_URL_def)

lemma urls_map_filter: "List.map_filter (\<lambda>u. u) (urls data) = List.map_filter URL data"
  by (induction data) (auto simp: urls_def dropna_URL_def map_filter_simps split: option.splits)

lemma items_filter: "items (filter (\<lambda>r. URL r \<noteq> None) data) = items data"
  by (simp add: items_def urls_def categories_column_def dropna_URL_def)

lemma picked_Nil [simp]: "picked l [] labels = []" "picked l xs [] = []"
  by (simp_all add: picked_def)

lemma picked_Cons [simp]:
  "picked l (x # xs) (y # ys) = (if y = l then x # picked l xs ys else picked l xs ys)"
  by (simp add: picked_def)

lemma picked_subset: "set (picked l xs labels) \<subseteq> set xs"
  by (auto simp: picked_def dest: set_zip_leftD)

lemma process_item_label:
  assumes "process_item env item (s, ps, sk) = (esc, (s', ps', sk'))"
  shows "\<exists>l. map product_key ps' = map product_key ps @ picked Extracted [item] [l] \<and>
             map skipped_key sk' = map skipped_key sk @ picked Skipped [item] [l]"
proof -
  obtain url cat where item: "item = (url, cat)" by (cases item)
  obtain r s1 where lp: "load_page env url s = (r, s1)" by (cases "load_page env url s")
  show ?thesis
  proof (cases r)
    case (Inl e)
    with assms item lp have "ps' = ps" "sk' = sk"
      by (auto simp: process_item_def split: if_splits)
    then show ?thesis by (intro exI [of _ Dropped]) simp
  next
    case (Inr sp)
    show ?thesis
    proof (cases "is_unavailable sp")
      case True
      with assms item lp Inr have "ps' = ps" "sk' = sk @ [(cat, url)]"
        by (auto simp: process_item_def)
      with item show ?thesis by (intro exI [of _ Skipped]) (simp add: skipped_key_def)
    next
      case False
      with assms item lp Inr have "sk' = sk" "\<exists>p. ps' = ps @ [p] \<and> product_key p = (url, cat)"
        by (auto simp: process_item_def product_key_def)
      with item show ?thesis by (intro exI [of _ Extracted]) auto
    qed
  qed
qed

lemma scrape_loop_labels:
  "scrape_loop env its (s, ps, sk) = (esc, (s', ps', sk')) \<Longrightarrow>
   \<exists>labels. length labels \<le> length its \<and> (esc = None \<longrightarrow> length labels = length its) \<and>
      map product_key ps' = map product_key ps @ picked Extracted its labels \<and>
      map skipped_key sk' = map skipped_key sk @ picked Skipped its labels"
proof (induction its arbitrary: s ps sk)
  case Nil
  then show ?case by simp
next
  case (Cons item rest)
  obtain e1 s1 ps1 sk1 where p: "process_item env item (s, ps, sk) = (e1, (s1, ps1, sk1))"
    by (metis prod_cases3)
  from process_item_label [OF p] obtain l where
    l: "map product_key ps1 = map product_key ps @ picked Extracted [item] [l]"
       "map skipped_key sk1 = map skipped_key sk @ picked Skipped [item] [l]" by blast
  show ?case
  proof (cases e1)
    case (Some e)
    with Cons.prems p have "esc = Some e" "ps' = ps1" "sk' = sk1" by auto
    with l show ?thesis by (intro exI [of _ "[l]"]) (auto split: if_splits)
  next
    case None
    with Cons.prems p have "scrape_loop env rest (s1, ps1, sk1) = (esc, (s', ps', sk'))"
      by simp
    from Cons.IH [OF this] obtain labels where
      "length labels \<le> length rest" "esc = None \<longrightarrow> length labels = length rest"
      "map product_key ps' = map product_key ps1 @ picked Extracted rest labels"
      "map skipped_key sk' = map skipped_key sk1 @ picked Skipped rest labels" by blast
    with l show ?thesis by (intro exI [of _ "l # labels"]) (auto split: if_splits)
  qed
qed

lemma main_rows:
  assumes "main env data s = (Inr (ps, sk), s')"
  shows "(\<forall>p\<in>set ps. p_URL p \<noteq> None) \<and> (\<forall>x\<in>set sk. snd x \<noteq> None)"
proof -
  obtain esc s1 ps1 sk1 where
    l: "scrape_loop env (items data) (s, [], []) = (esc, (s1, ps1, sk1))"
    by (metis prod_cases3)
  with assms have eq: "ps1 = ps" "sk1 = sk"
    by (auto simp: main_def split: prod.splits sum.splits option.splits)
  from scrape_loop_labels [OF l] eq obtain labels where
    lab: "map product_key ps = picked Extracted (items data) labels"
         "map skipped_key sk = picked Skipped (items data) labels" by auto
  have u: "\<And>x. x \<in> set (items data) \<Longrightarrow> fst x \<noteq> None"
    using urls_present [of data] items_fst [of data] by (metis image_eqI list.set_map)
  show ?thesis
  proof (intro conjI ballI)
    fix p assume "p \<in> set ps"
    then have "product_key p \<in> set (map product_key ps)" by simp
    with lab(1) picked_subset have "product_key p \<in> set (items data)" by fastforce
    from u [OF this] show "p_URL p \<noteq> None" by (simp add: product_key_def)
  next
    fix x assume "x \<in> set sk"
    then have "skipped_key x \<in> set (map skipped_key sk)" by simp
    with lab(2) picked_subset have "skipped_key x \<in> set (items data)" by fastforce
    from u [OF this] show "snd x \<noteq> None" by (simp add: skipped_key_def)
  qed
qed

text \<open>
  Claim C9 (empty-URL filtering). Because of \<^verbatim>\<open>dropna\<close> before the loop, the run of
  \<^verbatim>\<open>main\<close> on a table is the run on the table without its rows whose URL is missing:
  same result, same driver calls. In no run is \<^verbatim>\<open>driver.get\<close> called with a missing
  URL, and the navigations are, in order, the URLs of the rows that have one (all of them,
  or the first of them when the run is cut short). And no row of either output table has a
  missing URL: a row without URL reaches neither table.
\<close>

theorem empty_url_rows_dropped:
  "main env data s = main env (filter (\<lambda>r. URL r \<noteq> None) data) s \<and>
   (\<forall>r s'. main env data s = (r, s') \<longrightarrow>
      GetNaN \<notin> set (drop (length (calls s)) (calls s')) \<and>
      prefix (gets (drop (length (calls s)) (calls s'))) (List.map_filter URL data)) \<and>
   (\<forall>ps sk s'. main env data s = (Inr (ps, sk), s') \<longrightarrow>
      (\<forall>p\<in>set ps. p_URL p \<noteq> None) \<and> (\<forall>x\<in>set sk. snd x \<noteq> None))"
proof (intro conjI allI impI)
  show "main env data s = main env (filter (\<lambda>r. URL r \<noteq> None) data) s"
    by (simp only: main_def items_filter)
next
  fix r s' assume run: "main env data s = (r, s')"
  from main_calls [OF run] obtain evs where
    evs: "calls s' = calls s @ evs @ [Quit]"
      "prefix (gets evs) (List.map_filter (\<lambda>u. u) (map fst (items data)))"
      "GetNaN \<in> set evs \<longrightarrow> None \<in> fst ` set (items data)" by blast
  from evs(3) urls_present [of data] items_fst [of data] have "GetNaN \<notin> set evs"
    by (metis list.set_map)
  with evs(1) show "GetNaN \<notin> set (drop (length (calls s)) (calls s'))" by simp
  from evs(1,2) show "prefix (gets (drop (length (calls s)) (calls s'))) (List.map_filter URL data)"
    by (simp add: items_fst urls_map_filter)
next
  fix ps sk s' assume "main env data s = (Inr (ps, sk), s')"
  from main_rows [OF this] show "\<forall>p\<in>set ps. p_URL p \<noteq> None" and "\<forall>x\<in>set sk. snd x \<noteq> None"
    by blast+
qed

text \<open>
  Claim C10 (output disjointness and multiplicity). When \<^verbatim>\<open>main\<close> writes its two
  tables, every item of the input can be given one label (extracted, skipped or dropped) so
  that the rows of the successful table are, in input order, the items labelled extracted
  and the rows of the skipped table are, in input order, the items labelled skipped. An item
  has one label, so it has at most one row, and never one in both tables.
\<close>

theorem output_disjointness:
  assumes "main env data s = (Inr (products, skipped_urls), s')"
  shows "\<exists>labels. length labels = length (items data) \<and>
           map product_key products = picked Extracted (items data) labels \<and>
           map skipped_key skipped_urls = picked Skipped (items data) labels"
proof -
  obtain esc s1 ps sk where l: "scrape_loop env (items data) (s, [], []) = (esc, (s1, ps, sk))"
    by (metis prod_cases3)
  with assms have "esc = None" "ps = products" "sk = skipped_urls"
    by (auto simp: main_def split: prod.splits sum.splits option.splits)
  with scrape_loop_labels [OF l] show ?thesis by auto
qed

text \<open>
  Claim C1 (per-item isolation), as amended: for exceptions that are instances of
  \<^verbatim>\<open>Exception\<close>. If the items before item k were processed without an escaping
  exception and loading the page of item k raises such an exception, then the body of the
  loop catches it and changes neither list, and the loop goes on with the items after k from
  the lists as they were before k: these items are attempted as if k had not been there.
\<close>

theorem per_item_isolation:
  assumes "scrape_loop env pre st = (None, (s1, products, skipped_urls))"
    and "load_page env url s1 = (Inl e, s2)"
    and "isinstance_Exception e"
  shows "process_item env (url, cat) (s1, products, skipped_urls) =
           (None, (s2, products, skipped_urls)) \<and>
         scrape_loop env (pre @ (url, cat) # post) st =
           scrape_loop env post (s2, products, skipped_urls)"
proof -
  from assms(2,3) have p: "process_item env (url, cat) (s1, products, skipped_urls) =
           (None, (s2, products, skipped_urls))"
    by (simp add: process_item_def)
  with assms(1) show ?thesis by (simp add: scrape_loop_append)
qed

lemmas detail_demo_defs =
  load_page_def navigate_def scroll_to_ingredients_def call_def detail_env_def fresh_def
  gone_url_def balm_url_def stop_url_def slow_url_def split_url_def process_item_def
  is_unavailable_def soup_find_string_def soup_strings_def balm_page_def gone_page_def
  split_page_def marker_def sublist_Cons_right extract_name_def extract_brand_def
  extract_ingredients_def soup_find_def soup_tags_def strip_def tag_text_def is_space_def
  balm_product_def

lemma lp_gone: "load_page detail_env (Some gone_url) fresh =
   (Inr gone_page, \<lparr>drv = gone_url, calls = [Get gone_url, Until, FindElement ''ingredients'', PageSource]\<rparr>)"
  by (simp add: load_page_def navigate_def scroll_to_ingredients_def call_def detail_env_def
      fresh_def gone_url_def stop_url_def slow_url_def)

lemma lp_balm: "load_page detail_env (Some balm_url) fresh =
   (Inr balm_page, \<lparr>drv = balm_url, calls = [Get balm_url, Until, FindElement ''ingredients'', PageSource]\<rparr>)"
  by (simp add: load_page_def navigate_def scroll_to_ingredients_def call_def detail_env_def
      fresh_def gone_url_def balm_url_def stop_url_def slow_url_def)

lemma gone_marker: "\<exists>t\<in>set (soup_strings gone_page). sublist marker t"
  by (simp add: gone_page_def soup_strings_def marker_def sublist_Cons_right)

lemma balm_no_marker: "\<not> (\<exists>t\<in>set (soup_strings balm_page). sublist marker t)"
  by (simp add: balm_page_def soup_strings_def marker_def sublist_Cons_right)

text \<open>C3, as amended, at a page that has the marker in one string and also a name, a brand
  and ingredients.\<close>

theorem unavailability_precedence_witness:
  "process_item detail_env (Some gone_url, Some ''lip'') (fresh, [], []) =
     (None, (\<lparr>drv = gone_url,
               calls = [Get gone_url, Until, FindElement ''ingredients'', PageSource]\<rparr>,
             [], [(Some ''lip'', Some gone_url)])) \<and>
   soup_find ''span'' ''data-at'' ''product_name'' gone_page \<noteq> None \<and>
   soup_find ''a'' ''data-at'' ''brand_name'' gone_page \<noteq> None \<and>
   soup_find ''div'' ''id'' ''ingredients'' gone_page \<noteq> None"
  using unavailability_precedence [OF lp_gone gone_marker, of "Some ''lip''" "[]" "[]"]
  by (simp add: soup_find_def soup_tags_def gone_page_def)

text \<open>
  C3 as stated fails: the text of \<open>split_page\<close> contains the marker, spread over the strings
  of a paragraph and of the bold tag inside it. No single string contains it, so
  \<^verbatim>\<open>soup.find(string=...)\<close> finds nothing and the item is appended to the successful
  output, not to the skipped output.
\<close>

theorem unavailability_precedence_counterexample:
  "sublist marker (soup_text split_page) \<and>
   process_item detail_env (Some split_url, Some ''lip'') (fresh, [], []) =
     (None, (\<lparr>drv = split_url,
               calls = [Get split_url, Until, FindElement ''ingredients'', PageSource]\<rparr>,
             [\<lparr>p_Category = Some ''lip'', p_URL = Some split_url, p_Brand = None,
               p_Product_Name = Some ''Old Balm'', p_Ingredients = None\<rparr>], []))"
  by (simp add: detail_demo_defs soup_text_def)

text \<open>C8 at a page with a name element and no brand element.\<close>

theorem partial_extraction_witness:
  "process_item detail_env (Some balm_url, Some ''lip'') (fresh, [], []) =
     (None, (\<lparr>drv = balm_url,
               calls = [Get balm_url, Until, FindElement ''ingredients'', PageSource]\<rparr>,
             [\<lparr>p_Category = Some ''lip'', p_URL = Some balm_url, p_Brand = None,
               p_Product_Name = Some ''Lip Balm'', p_Ingredients = None\<rparr>], []))"
proof -
  from partial_extraction [OF lp_balm balm_no_marker, of "Some ''lip''" "[]" "[]"]
  obtain p where "process_item detail_env (Some balm_url, Some ''lip'') (fresh, [], []) =
      (None, (\<lparr>drv = balm_url,
               calls = [Get balm_url, Until, FindElement ''ingredients'', PageSource]\<rparr>, [] @ [p], []))"
    by blast
  moreover have "process_item detail_env (Some balm_url, Some ''lip'') (fresh, [], []) =
     (None, (\<lparr>drv = balm_url,
               calls = [Get balm_url, Until, FindElement ''ingredients'', PageSource]\<rparr>,
             [\<lparr>p_Category = Some ''lip'', p_URL = Some balm_url, p_Brand = None,
               p_Product_Name = Some ''Lip Balm'', p_Ingredients = None\<rparr>], []))"
    by (simp add: detail_demo_defs)
  ultimately show ?thesis by simp
qed

lemma items_demo:
  "items demo_data =
     [(Some gone_url, Some ''lip''), (Some slow_url, Some ''lip''), (Some balm_url, Some ''lip'')]"
  by (simp add: items_def urls_def categories_column_def dropna_URL_def demo_data_def)

lemma loop_gone:
  "scrape_loop detail_env [(Some gone_url, Some ''lip'')] (fresh, [], []) =
     (None, (\<lparr>drv = gone_url,
               calls = [Get gone_url, Until, FindElement ''ingredients'', PageSource]\<rparr>,
             [], [(Some ''lip'', Some gone_url)]))"
  by (simp add: detail_demo_defs)

lemma lp_slow:
  "load_page detail_env (Some slow_url)
     \<lparr>drv = gone_url, calls = [Get gone_url, Until, FindElement ''ingredients'', PageSource]\<rparr> =
   (Inl (Exception ''TimeoutException''),
    \<lparr>drv = slow_url,
      calls = [Get gone_url, Until, FindElement ''ingredients'', PageSource, Get slow_url, Until]\<rparr>)"
  by (simp add: detail_demo_defs)

lemma loop_balm_after:
  "scrape_loop detail_env [(Some balm_url, Some ''lip'')]
     (\<lparr>drv = slow_url,
        calls = [Get gone_url, Until, FindElement ''ingredients'', PageSource, Get slow_url, Until]\<rparr>,
      [], [(Some ''lip'', Some gone_url)]) =
   (None, (\<lparr>drv = balm_url,
             calls = [Get gone_url, Until, FindElement ''ingredients'', PageSource,
                      Get slow_url, Until,
                      Get balm_url, Until, FindElement ''ingredients'', PageSource]\<rparr>,
           [balm_product], [(Some ''lip'', Some gone_url)]))"
  by (simp add: detail_demo_defs)

text \<open>
  C1 at three items: the first is unavailable, the wait on the second times out, the third
  is extracted after it.
\<close>

theorem per_item_isolation_witness:
  "isinstance_Exception (Exception ''TimeoutException'') \<and>
   scrape_loop detail_env
     [(Some gone_url, Some ''lip''), (Some slow_url, Some ''lip''), (Some balm_url, Some ''lip'')]
     (fresh, [], []) =
   (None, (\<lparr>drv = balm_url,
             calls = [Get gone_url, Until, FindElement ''ingredients'', PageSource,
                      Get slow_url, Until,
                      Get balm_url, Until, FindElement ''ingredients'', PageSource]\<rparr>,
           [balm_product], [(Some ''lip'', Some gone_url)]))"
proof -
  have e: "isinstance_Exception (Exception ''TimeoutException'')" by simp
  from per_item_isolation [OF loop_gone lp_slow e, of "Some ''lip''"
      "[(Some balm_url, Some ''lip'')]"]
  have "scrape_loop detail_env
          ([(Some gone_url, Some ''lip'')] @ (Some slow_url, Some ''lip'') #
             [(Some balm_url, Some ''lip'')])
          (fresh, [], []) =
        scrape_loop detail_env [(Some balm_url, Some ''lip'')]
          (\<lparr>drv = slow_url,
             calls = [Get gone_url, Until, FindElement ''ingredients'', PageSource,
                      Get slow_url, Until]\<rparr>, [], [(Some ''lip'', Some gone_url)])"
    by (rule conjunct2)
  with loop_balm_after e show ?thesis
    by (simp del: scrape_loop.simps)
qed

text \<open>
  C1 as stated ("any exception") fails: a \<^verbatim>\<open>KeyboardInterrupt\<close> raised during the
  navigation of the first item is not caught by \<^verbatim>\<open>except Exception\<close>; it ends the
  loop, and the second item, which alone is extracted without error, is never attempted.
\<close>

theorem per_item_isolation_counterexample:
  "load_page detail_env (Some stop_url) fresh =
     (Inl (SystemExiting ''KeyboardInterrupt''), \<lparr>drv = ''about:blank'', calls = [Get stop_url]\<rparr>) \<and>
   scrape_loop detail_env [(Some stop_url, Some ''lip''), (Some balm_url, Some ''lip'')]
       (fresh, [], []) =
     (Some (SystemExiting ''KeyboardInterrupt''),
      (\<lparr>drv = ''about:blank'', calls = [Get stop_url]\<rparr>, [], [])) \<and>
   scrape_loop detail_env [(Some balm_url, Some ''lip'')] (fresh, [], []) =
     (None, (\<lparr>drv = balm_url,
               calls = [Get balm_url, Until, FindElement ''ingredients'', PageSource]\<rparr>,
             [balm_product], []))"
  by (simp add: detail_demo_defs)

lemma main_stop:
  "main detail_env stop_data fresh =
     (Inl (SystemExiting ''KeyboardInterrupt''),
      \<lparr>drv = gone_url,
        calls = [Get gone_url, Until, FindElement ''ingredients'', PageSource,
                 Get stop_url, Quit]\<rparr>)"
  by (simp add: main_def items_def urls_def categories_column_def dropna_URL_def stop_data_def
      detail_demo_defs)

lemma main_demo:
  "main detail_env demo_data fresh =
     (Inr ([balm_product], [(Some ''lip'', Some gone_url)]),
      \<lparr>drv = balm_url,
        calls = [Get gone_url, Until, FindElement ''ingredients'', PageSource,
                 Get slow_url, Until,
                 Get balm_url, Until, FindElement ''ingredients'', PageSource, Quit]\<rparr>)"
  by (simp add: main_def items_demo detail_demo_defs)

text \<open>
  C10 at the demonstration table.
\<close>

theorem output_disjointness_witness:
  "\<exists>labels. length labels = 3 \<and>
     [(Some balm_url, Some ''lip'')] =
       picked Extracted
         [(Some gone_url, Some ''lip''), (Some slow_url, Some ''lip''),
          (Some balm_url, Some ''lip'')] labels \<and>
     [(Some gone_url, Some ''lip'')] =
       picked Skipped
         [(Some gone_url, Some ''lip''), (Some slow_url, Some ''lip''),
          (Some balm_url, Some ''lip'')] labels"
  using output_disjointness [OF main_demo]
  by (simp add: items_demo product_key_def skipped_key_def balm_product_def numeral_3_eq_3)

text \<open>
  C9 at the demonstration table, whose second row has no URL: the run is the run on the other
  three rows, it navigates to their three URLs and never to a missing one, and the rows
  written have a URL.
\<close>

theorem empty_url_rows_dropped_witness:
  "main detail_env demo_data fresh =
     main detail_env [\<lparr>category = Some ''lip'', URL = Some gone_url\<rparr>,
                      \<lparr>category = Some ''lip'', URL = Some slow_url\<rparr>,
                      \<lparr>category = Some ''lip'', URL = Some balm_url\<rparr>] fresh \<and>
   GetNaN \<notin> set (drop (length (calls fresh)) (calls (snd (main detail_env demo_data fresh)))) \<and>
   prefix (gets (drop (length (calls fresh)) (calls (snd (main detail_env demo_data fresh)))))
     [gone_url, slow_url, balm_url] \<and>
   p_URL balm_product \<noteq> None \<and> snd (Some ''lip'', Some gone_url) \<noteq> None"
proof -
  note t = empty_url_rows_dropped [of detail_env demo_data fresh]
  from t have "main detail_env demo_data fresh =
      main detail_env (filter (\<lambda>r. URL r \<noteq> None) demo_data) fresh" by blast
  moreover from t have
    "GetNaN \<notin> set (drop (length (calls fresh)) (calls (snd (main detail_env demo_data fresh))))"
    by (metis prod.collapse)
  moreover from t have
    "prefix (gets (drop (length (calls fresh)) (calls (snd (main detail_env demo_data fresh)))))
       (List.map_filter URL demo_data)"
    by (metis prod.collapse)
  moreover from t main_demo have
    "(\<forall>p\<in>set [balm_product]. p_URL p \<noteq> None) \<and>
     (\<forall>x\<in>set [(Some ''lip'', Some gone_url)]. snd x \<noteq> None)"
    by blast
  ultimately show ?thesis
    by (simp add: demo_data_def map_filter_simps)
qed

section \<open>The Link Collector: properties\<close>

lemma with_rows_simps [simp]:
  "with_rows df0 (Inl e) = Inl e" "with_rows df0 (Inr (H, df)) = Inr (H, df0 @ df)"
  by (simp_all add: with_rows_def)

lemma anchors_loop_prefix:
  "anchors_loop env cat anchors (H, df0 @ df) s =
     (case anchors_loop env cat anchors (H, df) s of (r, s') \<Rightarrow> (with_rows df0 r, s'))"
  by (induction anchors arbitrary: H df s) (auto split: prod.splits sum.splits option.splits)

lemma blocks_loop_prefix:
  "blocks_loop env cat blocks (H, df0 @ df) s =
     (case blocks_loop env cat blocks (H, df) s of (r, s') \<Rightarrow> (with_rows df0 r, s'))"
proof (induction blocks arbitrary: H df s)
  case Nil
  then show ?case by simp
next
  case (Cons b bs)
  show ?case
    by (auto simp: anchors_loop_prefix Cons.IH split: prod.splits sum.splits)
qed

lemma pages_loop_prefix:
  "pages_loop env base cat pages (H, df0 @ df) s =
     (case pages_loop env base cat pages (H, df) s of
        None \<Rightarrow> None
      | Some (r, s') \<Rightarrow> Some (with_rows df0 r, s'))"
proof (induction pages arbitrary: H df s)
  case Nil
  then show ?case by simp
next
  case (Cons p ps)
  show ?case
    by (auto simp: blocks_loop_prefix Cons.IH split: prod.splits sum.splits option.splits)
qed

lemma fresh_rows_Nil [simp]: "fresh_rows cat H H []"
  by (simp add: fresh_rows_def)

lemma fresh_rows_trans:
  "fresh_rows cat H H1 rows1 \<Longrightarrow> fresh_rows cat H1 H2 rows2 \<Longrightarrow> fresh_rows cat H H2 (rows1 @ rows2)"
  by (auto simp: fresh_rows_def)

lemma fresh_rows_single: "h \<notin> H \<Longrightarrow> fresh_rows cat H (insert h H) [(cat, h)]"
  by (auto simp: fresh_rows_def)

lemma anchors_loop_rows:
  "anchors_loop env cat anchors (H, df) s = (Inr (H', df'), s') \<Longrightarrow>
   \<exists>rows. df' = df @ rows \<and> fresh_rows cat H H' rows"
proof (induction anchors arbitrary: H df s)
  case Nil
  then show ?case by simp
next
  case (Cons a as)
  obtain r s1 where c: "call (GetAttribute a ''href'') (wd_get_attribute env a ''href'') s = (r, s1)"
    by (cases "call (GetAttribute a ''href'') (wd_get_attribute env a ''href'') s")
  with Cons.prems obtain href where r: "r = Inr href" by (cases r) auto
  show ?case
  proof (cases "\<exists>h. href = Some h \<and> h \<noteq> [] \<and> h \<notin> H")
    case True
    then obtain h where h: "href = Some h" "h \<noteq> []" "h \<notin> H" by blast
    with Cons.prems c r have "anchors_loop env cat as (insert h H, df @ [(cat, h)]) s1 = (Inr (H', df'), s')"
      by simp
    from Cons.IH [OF this] obtain rows where
      "df' = (df @ [(cat, h)]) @ rows" "fresh_rows cat (insert h H) H' rows" by blast
    with fresh_rows_trans [OF fresh_rows_single [OF h(3)]] show ?thesis
      by (intro exI [of _ "[(cat, h)] @ rows"]) simp
  next
    case False
    with Cons.prems c r have "anchors_loop env cat as (H, df) s1 = (Inr (H', df'), s')"
      by (auto split: option.splits if_splits)
    from Cons.IH [OF this] show ?thesis .
  qed
qed

lemma blocks_loop_rows:
  "blocks_loop env cat blocks (H, df) s = (Inr (H', df'), s') \<Longrightarrow>
   \<exists>rows. df' = df @ rows \<and> fresh_rows cat H H' rows"
proof (induction blocks arbitrary: H df s)
  case Nil
  then show ?case by simp
next
  case (Cons b bs)
  from Cons.prems obtain anchors s1 H1 df1 s2 where
    a: "anchors_loop env cat anchors (H, df) s1 = (Inr (H1, df1), s2)"
    and b: "blocks_loop env cat bs (H1, df1) s2 = (Inr (H', df'), s')"
    by (auto split: prod.splits sum.splits)
  from anchors_loop_rows [OF a] obtain rows1 where
    r1: "df1 = df @ rows1" "fresh_rows cat H H1 rows1" by blast
  from Cons.IH [OF b] obtain rows2 where
    r2: "df' = df1 @ rows2" "fresh_rows cat H1 H' rows2" by blast
  from r1 r2 fresh_rows_trans show ?case
    by (intro exI [of _ "rows1 @ rows2"]) auto
qed

lemma pages_loop_rows:
  "pages_loop env base cat pages (H, df) s = Some (Inr (H', df'), s') \<Longrightarrow>
   \<exists>rows. df' = df @ rows \<and> fresh_rows cat H H' rows"
proof (induction pages arbitrary: H df s)
  case Nil
  then show ?case by simp
next
  case (Cons p ps)
  from Cons.prems obtain product_blocks s1 where
    sp: "scroll_page env (page_url base cat p) s = Some (Inr product_blocks, s1)"
    by (auto split: option.splits prod.splits sum.splits)
  show ?case
  proof (cases "product_blocks = []")
    case True
    with Cons.prems sp show ?thesis by simp
  next
    case False
    with Cons.prems sp obtain H1 df1 s2 where
      b: "blocks_loop env cat product_blocks (H, df) s1 = (Inr (H1, df1), s2)"
      and p: "pages_loop env base cat ps (H1, df1) s2 = Some (Inr (H', df'), s')"
      by (auto split: prod.splits sum.splits)
    from blocks_loop_rows [OF b] obtain rows1 where
      r1: "df1 = df @ rows1" "fresh_rows cat H H1 rows1" by blast
    from Cons.IH [OF p] obtain rows2 where
      r2: "df' = df1 @ rows2" "fresh_rows cat H1 H' rows2" by blast
    from r1 r2 fresh_rows_trans show ?thesis
      by (intro exI [of _ "rows1 @ rows2"]) auto
  qed
qed

lemma anchors_loop_seen:
  "anchors_loop env cat anchors (H, df) s = (Inr (H', df'), s') \<Longrightarrow>
   H' = H \<union> {h. Some h \<in> set (hrefs_read env anchors s) \<and> h \<noteq> []}"
proof (induction anchors arbitrary: H df s)
  case Nil
  then show ?case by simp
next
  case (Cons a as)
  obtain r s1 where c: "call (GetAttribute a ''href'') (wd_get_attribute env a ''href'') s = (r, s1)"
    by (cases "call (GetAttribute a ''href'') (wd_get_attribute env a ''href'') s")
  with Cons.prems obtain href where r: "r = Inr href" by (cases r) auto
  show ?case
  proof (cases "\<exists>h. href = Some h \<and> h \<noteq> [] \<and> h \<notin> H")
    case True
    then obtain h where h: "href = Some h" "h \<noteq> []" "h \<notin> H" by blast
    with Cons.prems c r have "anchors_loop env cat as (insert h H, df @ [(cat, h)]) s1 = (Inr (H', df'), s')"
      by simp
    from Cons.IH [OF this] c r h show ?thesis by auto
  next
    case False
    with Cons.prems c r have "anchors_loop env cat as (H, df) s1 = (Inr (H', df'), s')"
      by (auto split: option.splits if_splits)
    from Cons.IH [OF this] c r False show ?thesis by (cases href) auto
  qed
qed

text \<open>
  Claim C4 (run-wide deduplication), as amended: a URL already seen is skipped within one
  call of \<^verbatim>\<open>scrape_all_paginated_products\<close>, that is, within one category, and not
  across the categories of a run.

  \<^item> The set of seen URLs starts empty at every call, so what a call appends to the table
    does not depend on the rows the table already holds: the call on \<^verbatim>\<open>final_df\<close>
    appends the very rows that the call on the empty table collects, also those whose URL
    is already in the table under an earlier category.
  \<^item> The rows one call appends have pairwise different URLs, and the category of the call.
  \<^item> At the anchors of a block, read with the seen set \<open>all_hrefs\<close>: the rows appended have
    pairwise different URLs, none of them in \<open>all_hrefs\<close>; their URLs are the non-empty
    \<^verbatim>\<open>href\<close> values read that are not in \<open>all_hrefs\<close>; and the seen set afterwards
    is \<open>all_hrefs\<close> with these URLs.
\<close>

theorem seen_set_is_per_category:
  "scrape_all_paginated_products env base_url cat final_df max_pages s =
     (case scrape_all_paginated_products env base_url cat [] max_pages s of
        None \<Rightarrow> None
      | Some (Inl e, s') \<Rightarrow> Some (Inl e, s')
      | Some (Inr rows, s') \<Rightarrow> Some (Inr (final_df @ rows), s')) \<and>
   (\<forall>rows s'. scrape_all_paginated_products env base_url cat [] max_pages s = Some (Inr rows, s') \<longrightarrow>
      distinct (map snd rows) \<and> fst ` set rows \<subseteq> {cat}) \<and>
   (\<forall>anchors all_hrefs df t all_hrefs' df' t'.
      anchors_loop env cat anchors (all_hrefs, df) t = (Inr (all_hrefs', df'), t') \<longrightarrow>
      (\<exists>rows. df' = df @ rows \<and> distinct (map snd rows) \<and> fst ` set rows \<subseteq> {cat} \<and>
         snd ` set rows \<inter> all_hrefs = {} \<and>
         snd ` set rows = {h. Some h \<in> set (hrefs_read env anchors t) \<and> h \<noteq> []} - all_hrefs \<and>
         all_hrefs' = all_hrefs \<union> snd ` set rows))"
proof (intro conjI allI impI)
  show "scrape_all_paginated_products env base_url cat final_df max_pages s =
     (case scrape_all_paginated_products env base_url cat [] max_pages s of
        None \<Rightarrow> None
      | Some (Inl e, s') \<Rightarrow> Some (Inl e, s')
      | Some (Inr rows, s') \<Rightarrow> Some (Inr (final_df @ rows), s'))"
    using pages_loop_prefix [of env base_url cat "[1..max_pages]" "{}" final_df "[]" s]
    by (auto simp: scrape_all_paginated_products_def split: option.splits sum.splits prod.splits)
next
  fix rows s'
  assume "scrape_all_paginated_products env base_url cat [] max_pages s = Some (Inr rows, s')"
  then obtain H' where
    "pages_loop env base_url cat [1..max_pages] ({}, []) s = Some (Inr (H', rows), s')"
    by (auto simp: scrape_all_paginated_products_def split: option.splits sum.splits prod.splits)
  from pages_loop_rows [OF this] have "fresh_rows cat {} H' rows" by simp
  then show "distinct (map snd rows)" and "fst ` set rows \<subseteq> {cat}"
    by (simp_all add: fresh_rows_def)
next
  fix anchors all_hrefs df t all_hrefs' df' t'
  assume run: "anchors_loop env cat anchors (all_hrefs, df) t = (Inr (all_hrefs', df'), t')"
  from anchors_loop_rows [OF run] obtain rows where
    rows: "df' = df @ rows" "fresh_rows cat all_hrefs all_hrefs' rows" by blast
  from anchors_loop_seen [OF run] rows(2)
  have "snd ` set rows = {h. Some h \<in> set (hrefs_read env anchors t) \<and> h \<noteq> []} - all_hrefs"
    by (auto simp: fresh_rows_def)
  with rows show "\<exists>rows. df' = df @ rows \<and> distinct (map snd rows) \<and> fst ` set rows \<subseteq> {cat} \<and>
         snd ` set rows \<inter> all_hrefs = {} \<and>
         snd ` set rows = {h. Some h \<in> set (hrefs_read env anchors t) \<and> h \<noteq> []} - all_hrefs \<and>
         all_hrefs' = all_hrefs \<union> snd ` set rows"
    by (intro exI [of _ rows]) (simp add: fresh_rows_def)
qed

lemma scrape_rows:
  assumes "scrape_all_paginated_products env base cat df mp s = Some (Inr df', s')"
  shows "\<exists>rows. df' = df @ rows \<and> distinct rows \<and> fst ` set rows \<subseteq> {cat}"
proof -
  from assms obtain H' where
    "pages_loop env base cat [1..mp] ({}, df) s = Some (Inr (H', df'), s')"
    by (auto simp: scrape_all_paginated_products_def split: option.splits sum.splits prod.splits)
  from pages_loop_rows [OF this] obtain rows where
    "df' = df @ rows" "fresh_rows cat {} H' rows" by blast
  then show ?thesis
    by (intro exI [of _ rows]) (auto simp: fresh_rows_def dest: distinct_map [THEN iffD1])
qed

lemma categories_loop_distinct:
  "categories_loop env cats df s = Some (Inr df', s') \<Longrightarrow> distinct cats \<Longrightarrow> distinct df \<Longrightarrow>
   fst ` set df \<inter> set cats = {} \<Longrightarrow> distinct df'"
proof (induction cats arbitrary: df s)
  case Nil
  then show ?case by simp
next
  case (Cons c cs)
  from Cons.prems(1) obtain df1 s1 where
    sc: "scrape_all_paginated_products env ''https://www.sephora.com/shop'' c df 50 s = Some (Inr df1, s1)"
    and l: "categories_loop env cs df1 s1 = Some (Inr df', s')"
    by (auto split: option.splits sum.splits prod.splits)
  from scrape_rows [OF sc] obtain rows where
    rows: "df1 = df @ rows" "distinct rows" "fst ` set rows \<subseteq> {c}" by blast
  from rows Cons.prems have "distinct df1" by (auto simp: image_iff) 
  moreover from rows Cons.prems have "fst ` set df1 \<inter> set cs = {}" by (auto simp: image_iff)
  moreover from Cons.prems have "distinct cs" by simp
  ultimately show ?case using Cons.IH [OF l] by blast
qed

lemma distinct_categories: "distinct categories"
  by (simp add: categories_def)

text \<open>
  Claim C5 (per-category deduplication). The table written by the Link Collector has no row
  twice: a URL appears at most once with a given category, whatever the driver returns
  (however often an anchor with that URL recurs in the blocks, scroll passes and pages of the
  category).
\<close>

theorem per_category_dedup:
  assumes "sephora_scr env s = Some (Inr final_df, s')"
  shows "distinct final_df"
proof -
  from assms obtain s1 where "categories_loop env categories [] s = Some (Inr final_df, s1)"
    by (auto simp: sephora_scr_def split: option.splits sum.splits prod.splits)
  from categories_loop_distinct [OF this distinct_categories] show ?thesis by simp
qed

lemma quiet_refl [simp]: "quiet s s"
  by (simp add: quiet_def)

lemma quiet_trans: "quiet s s1 \<Longrightarrow> quiet s1 s2 \<Longrightarrow> quiet s s2"
  by (auto simp: quiet_def)

lemma quiet_call:
  "call ev f s = (r, s') \<Longrightarrow> ev \<noteq> Quit \<Longrightarrow> gets [ev] = [] \<Longrightarrow> quiet s s'"
  by (auto simp: quiet_def dest!: call_calls)

lemma scroll_loop_quiet:
  "scroll_loop env prev a pb s = Some y \<Longrightarrow> quiet s (snd y)"
proof (induction env prev a pb s y rule: scroll_loop.raw_induct [rotated 1, consumes 1, case_names step])
  case (step f env prev a pb s y)
  note 1 = step
  show ?case
  proof (cases "a < 7")
    case False
    with 1(2) show ?thesis by (auto simp: quiet_def)
  next
    case True
    obtain r1 s1 where c1: "call (FindElements block_selector) (wd_find_elements env block_selector) s = (r1, s1)"
      by (cases "call (FindElements block_selector) (wd_find_elements env block_selector) s")
    from quiet_call [OF c1] have q1: "quiet s s1" by simp
    show ?thesis
    proof (cases r1)
      case (Inl e)
      with 1(2) True c1 q1 show ?thesis by auto
    next
      case (Inr blocks)
      obtain r2 s2 where c2: "call (ExecuteScript ''window.scrollBy(0, 300);'' [])
                     (wd_execute_script env ''window.scrollBy(0, 300);'' []) s1 = (r2, s2)"
        by (cases "call (ExecuteScript ''window.scrollBy(0, 300);'' [])
                     (wd_execute_script env ''window.scrollBy(0, 300);'' []) s1")
      from quiet_call [OF c2] have q2: "quiet s1 s2" by simp
      show ?thesis
      proof (cases r2)
        case (Inl e)
        with 1(2) True c1 c2 Inr quiet_trans [OF q1 q2] show ?thesis by auto
      next
        case (Inr u)
        with 1(2) True c1 c2 \<open>r1 = Inr blocks\<close> have
          "f env (int (length blocks))
             (if int (length blocks) = prev then a + 1 else 0) blocks s2 = Some y"
          by (simp split: if_splits)
        from 1(1) [OF this] have "quiet s2 (snd y)" .
        with quiet_trans q1 q2 show ?thesis by blast
      qed
    qed
  qed
qed

lemma anchors_loop_quiet:
  "anchors_loop env cat anchors acc s = (r, s') \<Longrightarrow> quiet s s'"
proof (induction anchors arbitrary: acc s)
  case Nil
  then show ?case by simp
next
  case (Cons a as)
  obtain H df where acc: "acc = (H, df)" by (cases acc)
  obtain r1 s1 where c: "call (GetAttribute a ''href'') (wd_get_attribute env a ''href'') s = (r1, s1)"
    by (cases "call (GetAttribute a ''href'') (wd_get_attribute env a ''href'') s")
  from quiet_call [OF c] have q: "quiet s s1" by simp
  show ?case
  proof (cases r1)
    case (Inl e)
    with Cons.prems acc c q show ?thesis by auto
  next
    case (Inr href)
    with Cons.prems acc c obtain acc' where "anchors_loop env cat as acc' s1 = (r, s')"
      by (auto split: option.splits if_splits)
    from Cons.IH [OF this] q quiet_trans show ?thesis by blast
  qed
qed

lemma blocks_loop_quiet:
  "blocks_loop env cat blocks acc s = (r, s') \<Longrightarrow> quiet s s'"
proof (induction blocks arbitrary: acc s)
  case Nil
  then show ?case by simp
next
  case (Cons b bs)
  obtain r1 s1 where c: "call (ElemFindElements b anchor_xpath)
             (wd_elem_find_elements env b anchor_xpath) s = (r1, s1)"
    by (cases "call (ElemFindElements b anchor_xpath)
             (wd_elem_find_elements env b anchor_xpath) s")
  from quiet_call [OF c] have q: "quiet s s1" by simp
  show ?case
  proof (cases r1)
    case (Inl e)
    with Cons.prems c q show ?thesis by auto
  next
    case (Inr anchors)
    obtain r2 s2 where a: "anchors_loop env cat anchors acc s1 = (r2, s2)"
      by (cases "anchors_loop env cat anchors acc s1")
    from anchors_loop_quiet [OF a] q quiet_trans have q2: "quiet s s2" by blast
    show ?thesis
    proof (cases r2)
      case (Inl e)
      with Cons.prems c a \<open>r1 = Inr anchors\<close> q2 show ?thesis by auto
    next
      case (Inr acc')
      with Cons.prems c a \<open>r1 = Inr anchors\<close> have "blocks_loop env cat bs acc' s2 = (r, s')"
        by simp
      from Cons.IH [OF this] q2 quiet_trans show ?thesis by blast
    qed
  qed
qed

lemma visited_Nil: "visited s s' [] = quiet s s'"
  by (simp add: visited_def quiet_def)

lemma visited_trans: "visited s s1 us \<Longrightarrow> visited s1 s2 vs \<Longrightarrow> visited s s2 (us @ vs)"
  by (auto simp: visited_def)

lemma scroll_page_visited:
  assumes "scroll_page env url s = Some (r, s')"
  shows "visited s s' [url]"
proof -
  obtain r1 s1 where c1: "call (Get url) (wd_get env url) s = (r1, s1)"
    by (cases "call (Get url) (wd_get env url) s")
  from call_calls [OF c1] have v1: "visited s s1 [url]" by (simp add: visited_def)
  show ?thesis
  proof (cases r1)
    case (Inl e)
    with assms c1 v1 show ?thesis by (auto simp: scroll_page_def)
  next
    case (Inr u1)
    obtain r2 s2 where c2: "call (ExecuteScript ''window.scrollBy(0, 1);'' [])
                  (wd_execute_script env ''window.scrollBy(0, 1);'' []) s1 = (r2, s2)"
      by (cases "call (ExecuteScript ''window.scrollBy(0, 1);'' [])
                  (wd_execute_script env ''window.scrollBy(0, 1);'' []) s1")
    from quiet_call [OF c2] have q2: "visited s1 s2 []" by (simp add: visited_Nil)
    show ?thesis
    proof (cases r2)
      case (Inl e)
      with assms c1 c2 \<open>r1 = Inr u1\<close> visited_trans [OF v1 q2] show ?thesis
        by (auto simp: scroll_page_def)
    next
      case (Inr u2)
      with assms c1 c2 \<open>r1 = Inr u1\<close> have "scroll_loop env (- 1) 0 [] s2 = Some (r, s')"
        by (simp add: scroll_page_def)
      from scroll_loop_quiet [OF this] have "visited s2 s' []" by (simp add: visited_Nil)
      with visited_trans [OF visited_trans [OF v1 q2]] show ?thesis by fastforce
    qed
  qed
qed

lemma pages_loop_visited:
  "pages_loop env base cat pages acc s = Some (r, s') \<Longrightarrow>
   \<exists>k\<le>length pages. visited s s' (map (page_url base cat) (take k pages))"
proof (induction pages arbitrary: acc s)
  case Nil
  then show ?case by (simp add: visited_Nil)
next
  case (Cons p ps)
  from Cons.prems obtain r1 s1 where
    sp: "scroll_page env (page_url base cat p) s = Some (r1, s1)"
    by (auto split: option.splits)
  from scroll_page_visited [OF sp] have v1: "visited s s1 [page_url base cat p]" .
  have one: "visited s s1 (map (page_url base cat) (take 1 (p # ps)))" using v1 by simp
  show ?case
  proof (cases r1)
    case (Inl e)
    with Cons.prems sp have "s' = s1" by simp
    with one show ?thesis by (intro exI [of _ 1]) simp
  next
    case (Inr product_blocks)
    show ?thesis
    proof (cases "product_blocks = []")
      case True
      with Cons.prems sp Inr have "s' = s1" by simp
      with one show ?thesis by (intro exI [of _ 1]) simp
    next
      case False
      obtain r2 s2 where b: "blocks_loop env cat product_blocks acc s1 = (r2, s2)"
        by (cases "blocks_loop env cat product_blocks acc s1")
      from blocks_loop_quiet [OF b] have "visited s1 s2 []" by (simp add: visited_Nil)
      with visited_trans [OF v1] have v2: "visited s s2 [page_url base cat p]" by fastforce
      show ?thesis
      proof (cases r2)
        case (Inl e)
        with Cons.prems sp Inr False b have "s' = s2" by simp
        with v2 show ?thesis by (intro exI [of _ 1]) simp
      next
        case (Inr acc')
        with Cons.prems sp \<open>r1 = Inr product_blocks\<close> False b
        have "pages_loop env base cat ps acc' s2 = Some (r, s')" by simp
        from Cons.IH [OF this] obtain k where
          k: "k \<le> length ps" "visited s2 s' (map (page_url base cat) (take k ps))" by blast
        from visited_trans [OF v2 k(2)] k(1) show ?thesis
          by (intro exI [of _ "Suc k"]) simp
      qed
    qed
  qed
qed

lemma take_upto: "k \<le> length [1..m] \<Longrightarrow> take k [1..m] = [1..int k]"
  by (auto simp: list_eq_iff_nth_eq nth_upto)

lemma scrape_visited:
  assumes "scrape_all_paginated_products env base cat df mp s = Some (r, s')"
  shows "\<exists>k. 0 \<le> k \<and> k \<le> max 0 mp \<and> visited s s' (map (page_url base cat) [1..k])"
proof -
  from assms obtain r1 where
    "pages_loop env base cat [1..mp] ({}, df) s = Some (r1, s')"
    by (auto simp: scrape_all_paginated_products_def split: option.splits sum.splits prod.splits)
  from pages_loop_visited [OF this] obtain k where
    k: "k \<le> length [1..mp]" "visited s s' (map (page_url base cat) (take k [1..mp]))" by blast
  with take_upto [OF k(1)] show ?thesis
    by (intro exI [of _ "int k"]) auto
qed

lemma scroll_loop_step:
  "scroll_loop env prev a pb s =
     (if a < 7 then
        (case scroll_step env s of
           (Inl e, s1) \<Rightarrow> Some (Inl e, s1)
         | (Inr blocks, s2) \<Rightarrow>
             scroll_loop env (int (length blocks))
               (if int (length blocks) = prev then a + 1 else 0) blocks s2)
      else Some (Inr pb, s))"
  by (subst scroll_loop.simps)
     (simp add: scroll_step_def split: prod.splits sum.splits)

lemma reads_length: "reads env n s = Some (bs, s') \<Longrightarrow> length bs = n"
  by (induction n arbitrary: s bs) (auto split: prod.splits sum.splits option.splits)

lemma scroll_loop_exits:
  "reads env n s = Some (bs, s') \<Longrightarrow>
   (\<forall>k<n. attempts_after prev a (map length (take k bs)) < 7) \<Longrightarrow>
   7 \<le> attempts_after prev a (map length bs) \<Longrightarrow>
   scroll_loop env prev a pb s = Some (Inr (last (pb # bs)), s')"
proof (induction n arbitrary: s bs prev a pb)
  case 0
  then show ?case by (subst scroll_loop_step) simp
next
  case (Suc n)
  from Suc.prems(1) obtain blocks s1 bs' where
    st: "scroll_step env s = (Inr blocks, s1)" and
    rd: "reads env n s1 = Some (bs', s')" and bs: "bs = blocks # bs'"
    by (auto split: prod.splits sum.splits option.splits)
  from Suc.prems(2) [rule_format, of 0] have a: "a < 7" by simp
  let ?a' = "if int (length blocks) = prev then a + 1 else 0"
  have "\<forall>k<n. attempts_after (int (length blocks)) ?a' (map length (take k bs')) < 7"
  proof (intro allI impI)
    fix k assume "k < n"
    with Suc.prems(2) [rule_format, of "Suc k"] bs
    show "attempts_after (int (length blocks)) ?a' (map length (take k bs')) < 7" by simp
  qed
  moreover from Suc.prems(3) bs
  have "7 \<le> attempts_after (int (length blocks)) ?a' (map length bs')" by simp
  ultimately have "scroll_loop env (int (length blocks)) ?a' blocks s1 =
       Some (Inr (last (blocks # bs')), s')"
    using Suc.IH [OF rd] by blast
  with a st bs show ?case by (subst scroll_loop_step) simp
qed

lemma scroll_loop_returned:
  "scroll_loop env prev a pb s = Some y \<Longrightarrow> fst y = Inr pb' \<Longrightarrow>
   \<exists>n bs. reads env n s = Some (bs, snd y) \<and>
          (\<forall>k<n. attempts_after prev a (map length (take k bs)) < 7) \<and>
          7 \<le> attempts_after prev a (map length bs) \<and> pb' = last (pb # bs)"
proof (induction env prev a pb s y
    rule: scroll_loop.raw_induct [rotated 1, consumes 1, case_names step])
  case (step f env prev a pb s y)
  note IH = step(1) and body = step(2) and inr = step(3)
  show ?case
  proof (cases "a < 7")
    case False
    with body inr have "y = (Inr pb, s)" "pb' = pb" by auto
    with False show ?thesis by (intro exI [of _ 0] exI [of _ "[]"]) simp
  next
    case True
    let ?c1 = "call (FindElements block_selector) (wd_find_elements env block_selector) s"
    from body inr True obtain blocks s1 where
      c1: "?c1 = (Inr blocks, s1)"
      by (cases ?c1; cases "fst ?c1") auto
    let ?c2 = "call (ExecuteScript ''window.scrollBy(0, 300);'' [])
                  (wd_execute_script env ''window.scrollBy(0, 300);'' []) s1"
    from body inr True c1 obtain u s2 where
      c2: "?c2 = (Inr u, s2)"
      by (cases ?c2; cases "fst ?c2") auto
    let ?a' = "if int (length blocks) = prev then a + 1 else 0"
    from body True c1 c2 have
      f: "f env (int (length blocks)) ?a' blocks s2 = Some y" by (simp split: if_splits)
    from IH [OF f inr] obtain n bs where
      n: "reads env n s2 = Some (bs, snd y)"
         "\<forall>k<n. attempts_after (int (length blocks)) ?a' (map length (take k bs)) < 7"
         "7 \<le> attempts_after (int (length blocks)) ?a' (map length bs)"
         "pb' = last (blocks # bs)" by blast
    from c1 c2 have st: "scroll_step env s = (Inr blocks, s2)"
      by (simp add: scroll_step_def)
    have "\<forall>k<Suc n. attempts_after prev a (map length (take k (blocks # bs))) < 7"
    proof (intro allI impI)
      fix k assume k: "k < Suc n"
      show "attempts_after prev a (map length (take k (blocks # bs))) < 7"
      proof (cases k)
        case 0
        with True show ?thesis by simp
      next
        case (Suc j)
        with k n(2) show ?thesis by simp
      qed
    qed
    with n st show ?thesis
      by (intro exI [of _ "Suc n"] exI [of _ "blocks # bs"]) simp
  qed
qed

lemma attempts_after_snoc:
  "attempts_after prev a (cs @ [c]) =
     (if int c = (if cs = [] then prev else int (last cs))
      then attempts_after prev a cs + 1 else 0)"
  by (induction cs arbitrary: prev a) auto

lemma unchanged_read_snoc:
  "unchanged_read (cs @ [c]) i =
     (if i < length cs then unchanged_read cs i
      else i = length cs \<and> cs \<noteq> [] \<and> c = last cs)"
proof (cases "i < length cs")
  case True
  then show ?thesis by (auto simp: unchanged_read_def nth_append)
next
  case False
  show ?thesis
  proof (cases "i = length cs")
    case True
    then show ?thesis
      by (cases "cs = []") (auto simp: unchanged_read_def nth_append last_conv_nth)
  next
    case False
    with \<open>\<not> i < length cs\<close> show ?thesis by (simp add: unchanged_read_def)
  qed
qed

lemma attempts_after_unchanged:
  "j \<le> attempts_after (- 1) 0 cs \<longleftrightarrow>
     j \<le> length cs \<and> (\<forall>i. length cs - j \<le> i \<and> i < length cs \<longrightarrow> unchanged_read cs i)"
proof (induction cs arbitrary: j rule: rev_induct)
  case Nil
  then show ?case by simp
next
  case (snoc c cs)
  show ?case
  proof (cases "cs \<noteq> [] \<and> c = last cs")
    case True
    then have A: "attempts_after (- 1) 0 (cs @ [c]) = attempts_after (- 1) 0 cs + 1"
      by (simp add: attempts_after_snoc)
    show ?thesis
    proof (cases j)
      case 0
      then show ?thesis by auto
    next
      case (Suc j')
      have "(\<forall>i. length (cs @ [c]) - j \<le> i \<and> i < length (cs @ [c]) \<longrightarrow> unchanged_read (cs @ [c]) i)
          \<longleftrightarrow> (\<forall>i. length cs - j' \<le> i \<and> i < length cs \<longrightarrow> unchanged_read cs i)"
        using True Suc by (auto simp: unchanged_read_snoc less_Suc_eq)
      with A Suc snoc.IH [of j'] show ?thesis by simp
    qed
  next
    case False
    then have A: "attempts_after (- 1) 0 (cs @ [c]) = 0"
      by (auto simp: attempts_after_snoc)
    have "0 < j \<Longrightarrow> \<not> unchanged_read (cs @ [c]) (length cs)"
      using False by (auto simp: unchanged_read_snoc)
    then have "0 < j \<Longrightarrow> \<not> (\<forall>i. length (cs @ [c]) - j \<le> i \<and> i < length (cs @ [c]) \<longrightarrow>
         unchanged_read (cs @ [c]) i)"
      by (intro notI) (auto dest: spec [of _ "length cs"])
    with A show ?thesis by auto
  qed
qed

lemma unchanged_read_take:
  "i < k \<Longrightarrow> k \<le> length cs \<Longrightarrow> unchanged_read (take k cs) i = unchanged_read cs i"
  by (auto simp: unchanged_read_def)

lemma settled_iff_attempts:
  assumes "k \<le> length cs"
  shows "settled cs k \<longleftrightarrow> 7 \<le> attempts_after (- 1) 0 (take k cs)"
proof -
  have "7 \<le> attempts_after (- 1) 0 (take k cs) \<longleftrightarrow>
        7 \<le> k \<and> (\<forall>i. k - 7 \<le> i \<and> i < k \<longrightarrow> unchanged_read (take k cs) i)"
    using assms attempts_after_unchanged [of 7 "take k cs"] by (simp add: min_absorb2)
  also have "\<dots> \<longleftrightarrow> 7 \<le> k \<and> (\<forall>i. k - 7 \<le> i \<and> i < k \<longrightarrow> unchanged_read cs i)"
    using assms by (auto simp: unchanged_read_take)
  also have "\<dots> \<longleftrightarrow> settled cs k"
    using assms by (auto simp: settled_def)
  finally show ?thesis by simp
qed

text \<open>
  Claim C6 (scroll-stability condition). Started as on every listing page (previous count
  \<open>-1\<close>, counter 0), the scroll loop returns normally with the session \<open>s'\<close> and the
  blocks \<open>product_blocks\<close> exactly when, for some \<open>n\<close>, \<open>n\<close> passes of its body run
  without an exception from the same session to \<open>s'\<close>, the counts read are settled at
  \<open>n\<close> (the last 7 reads were all unchanged) and at no earlier position, and
  \<open>product_blocks\<close> is what the last pass read. So the loop exits as soon as 7
  unchanged reads in a row have been made, and not before; a read that changes the count
  starts the run of unchanged reads anew.
\<close>

theorem scroll_stability:
  "scroll_loop env (- 1) 0 [] s = Some (Inr product_blocks, s') \<longleftrightarrow>
   (\<exists>n bs. reads env n s = Some (bs, s') \<and> settled (map length bs) n \<and>
           (\<forall>k<n. \<not> settled (map length bs) k) \<and> product_blocks = last bs)"
proof
  assume run: "scroll_loop env (- 1) 0 [] s = Some (Inr product_blocks, s')"
  from scroll_loop_returned [OF run, of product_blocks] obtain n bs where
    n: "reads env n s = Some (bs, s')"
       "\<forall>k<n. attempts_after (- 1) 0 (map length (take k bs)) < 7"
       "7 \<le> attempts_after (- 1) 0 (map length bs)"
       "product_blocks = last ([] # bs)" by auto
  from reads_length [OF n(1)] have len: "length bs = n" .
  from n(3) len have s: "settled (map length bs) n"
    using settled_iff_attempts [of n "map length bs"] by simp
  then have "bs \<noteq> []" using len by (auto simp: settled_def)
  moreover have "\<forall>k<n. \<not> settled (map length bs) k"
  proof (intro allI impI)
    fix k assume k: "k < n"
    with n(2) have "attempts_after (- 1) 0 (map length (take k bs)) < 7" by blast
    with k len show "\<not> settled (map length bs) k"
      using settled_iff_attempts [of k "map length bs"] by (simp add: take_map)
  qed
  ultimately show "\<exists>n bs. reads env n s = Some (bs, s') \<and> settled (map length bs) n \<and>
           (\<forall>k<n. \<not> settled (map length bs) k) \<and> product_blocks = last bs"
    using n s by auto
next
  assume "\<exists>n bs. reads env n s = Some (bs, s') \<and> settled (map length bs) n \<and>
           (\<forall>k<n. \<not> settled (map length bs) k) \<and> product_blocks = last bs"
  then obtain n bs where
    n: "reads env n s = Some (bs, s')" "settled (map length bs) n"
       "\<forall>k<n. \<not> settled (map length bs) k" "product_blocks = last bs" by blast
  from reads_length [OF n(1)] have len: "length bs = n" .
  from n(2) len have "bs \<noteq> []" by (auto simp: settled_def)
  have a: "\<forall>k<n. attempts_after (- 1) 0 (map length (take k bs)) < 7"
  proof (intro allI impI)
    fix k assume k: "k < n"
    with n(3) have "\<not> settled (map length bs) k" by blast
    with k len show "attempts_after (- 1) 0 (map length (take k bs)) < 7"
      using settled_iff_attempts [of k "map length bs"] by (simp add: take_map not_le)
  qed
  from n(2) len have b: "7 \<le> attempts_after (- 1) 0 (map length bs)"
    using settled_iff_attempts [of n "map length bs"] by simp
  from scroll_loop_exits [OF n(1) a b, of "[]"] \<open>bs \<noteq> []\<close> n(4)
  show "scroll_loop env (- 1) 0 [] s = Some (Inr product_blocks, s')" by simp
qed

lemma listing_run:
  "map_option (\<lambda>y. (fst y, gets (calls (snd y)), last (calls (snd y))))
     (sephora_scr listing_env start) =
   Some (Inr [(''cleanser'', shared_href), (''facial-treatments'', shared_href)],
         [''https://www.sephora.com/shop/cleanser?currentPage=1'',
          ''https://www.sephora.com/shop/cleanser?currentPage=2'',
          ''https://www.sephora.com/shop/facial-treatments?currentPage=1'',
          ''https://www.sephora.com/shop/facial-treatments?currentPage=2'',
          ''https://www.sephora.com/shop/moisturizing-cream-oils-mists?currentPage=1'',
          ''https://www.sephora.com/shop/lip-balm-lip-care?currentPage=1'',
          ''https://www.sephora.com/shop/face-mask?currentPage=1'',
          ''https://www.sephora.com/shop/sunscreen-sun-protection?currentPage=1'',
          ''https://www.sephora.com/shop/eye-treatment-dark-circle-treatment?currentPage=1''],
         Quit)"
  by code_simp

lemma listing_run_table:
  "\<exists>s'. sephora_scr listing_env start =
     Some (Inr [(''cleanser'', shared_href), (''facial-treatments'', shared_href)], s')"
  using listing_run by (cases "sephora_scr listing_env start") auto

text \<open>
  C4 as stated fails: the product linked on the first page of cleanser and on the first page
  of facial-treatments is appended under both categories in one run.
\<close>

theorem seen_set_is_per_category_counterexample:
  "map_option fst (sephora_scr listing_env start) =
     Some (Inr [(''cleanser'', ''https://www.sephora.com/product/shared-P9''),
                (''facial-treatments'', ''https://www.sephora.com/product/shared-P9'')])"
  by code_simp

lemma treatments_run:
  "map_option fst (scrape_all_paginated_products listing_env ''https://www.sephora.com/shop''
     ''facial-treatments'' [] 50 start) = Some (Inr [(''facial-treatments'', shared_href)])"
  by code_simp

lemma two_anchors:
  "anchors_loop listing_env ''facial-treatments'' [''anchor-1'', ''anchor-2''] ({}, []) start =
     (Inr ({shared_href}, [(''facial-treatments'', shared_href)]),
      \<lparr>drv = 0, calls = [GetAttribute ''anchor-1'' ''href'', GetAttribute ''anchor-2'' ''href'']\<rparr>)"
  by (simp add: call_def listing_env_def start_def shared_href_def)

lemma two_hrefs:
  "hrefs_read listing_env [''anchor-1'', ''anchor-2''] start = [Some shared_href, Some shared_href]"
  by (simp add: call_def listing_env_def start_def)

text \<open>
  C4, as amended, at the category facial-treatments of the scripted browser, called on a
  table that holds the same product under cleanser: the product is appended again, and once,
  though both anchors of the block link to it.
\<close>

theorem seen_set_is_per_category_witness:
  "map_option fst (scrape_all_paginated_products listing_env ''https://www.sephora.com/shop''
     ''facial-treatments'' [(''cleanser'', shared_href)] 50 start) =
     Some (Inr [(''cleanser'', shared_href), (''facial-treatments'', shared_href)]) \<and>
   distinct (map snd [(''facial-treatments'', shared_href)]) \<and>
   hrefs_read listing_env [''anchor-1'', ''anchor-2''] start = [Some shared_href, Some shared_href] \<and>
   (\<exists>rows. [(''facial-treatments'', shared_href)] = [] @ rows \<and> distinct (map snd rows) \<and>
      snd ` set rows \<inter> {} = {} \<and>
      snd ` set rows = {h. Some h \<in> set [Some shared_href, Some shared_href] \<and> h \<noteq> []} - {} \<and>
      {shared_href} = {} \<union> snd ` set rows)"
proof -
  note t = seen_set_is_per_category [of listing_env "''https://www.sephora.com/shop''"
      "''facial-treatments''" "[(''cleanser'', shared_href)]" 50 start]
  from treatments_run obtain s' where run:
    "scrape_all_paginated_products listing_env ''https://www.sephora.com/shop''
       ''facial-treatments'' [] 50 start = Some (Inr [(''facial-treatments'', shared_href)], s')"
    by (cases "scrape_all_paginated_products listing_env ''https://www.sephora.com/shop''
       ''facial-treatments'' [] 50 start") auto
  from t have "scrape_all_paginated_products listing_env ''https://www.sephora.com/shop''
       ''facial-treatments'' [(''cleanser'', shared_href)] 50 start =
     (case scrape_all_paginated_products listing_env ''https://www.sephora.com/shop''
       ''facial-treatments'' [] 50 start of
        None \<Rightarrow> None
      | Some (Inl e, s') \<Rightarrow> Some (Inl e, s')
      | Some (Inr rows, s') \<Rightarrow> Some (Inr ([(''cleanser'', shared_href)] @ rows), s'))"
    by (rule conjunct1)
  with run have c1: "map_option fst (scrape_all_paginated_products listing_env
     ''https://www.sephora.com/shop'' ''facial-treatments'' [(''cleanser'', shared_href)] 50 start) =
     Some (Inr [(''cleanser'', shared_href), (''facial-treatments'', shared_href)])"
    by simp
  from t have "\<forall>rows s'. scrape_all_paginated_products listing_env ''https://www.sephora.com/shop''
       ''facial-treatments'' [] 50 start = Some (Inr rows, s') \<longrightarrow>
      distinct (map snd rows) \<and> fst ` set rows \<subseteq> {''facial-treatments''}"
    by (rule conjunct2 [THEN conjunct1])
  with run have c2: "distinct (map snd [(''facial-treatments'', shared_href)])"
    by blast
  from t have "\<forall>anchors all_hrefs df t all_hrefs' df' t'.
      anchors_loop listing_env ''facial-treatments'' anchors (all_hrefs, df) t =
        (Inr (all_hrefs', df'), t') \<longrightarrow>
      (\<exists>rows. df' = df @ rows \<and> distinct (map snd rows) \<and>
         fst ` set rows \<subseteq> {''facial-treatments''} \<and>
         snd ` set rows \<inter> all_hrefs = {} \<and>
         snd ` set rows = {h. Some h \<in> set (hrefs_read listing_env anchors t) \<and> h \<noteq> []} - all_hrefs \<and>
         all_hrefs' = all_hrefs \<union> snd ` set rows)"
    by (rule conjunct2 [THEN conjunct2])
  from this [rule_format, OF two_anchors] obtain rows where
    "[(''facial-treatments'', shared_href)] = [] @ rows" "distinct (map snd rows)"
    "snd ` set rows \<inter> {} = {}"
    "snd ` set rows = {h. Some h \<in> set (hrefs_read listing_env [''anchor-1'', ''anchor-2''] start) \<and>
        h \<noteq> []} - {}"
    "{shared_href} = {} \<union> snd ` set rows"
    by blast
  then have c3: "\<exists>rows. [(''facial-treatments'', shared_href)] = [] @ rows \<and> distinct (map snd rows) \<and>
      snd ` set rows \<inter> {} = {} \<and>
      snd ` set rows = {h. Some h \<in> set [Some shared_href, Some shared_href] \<and> h \<noteq> []} - {} \<and>
      {shared_href} = {} \<union> snd ` set rows"
    unfolding two_hrefs by (intro exI [of _ rows] conjI)
  from c1 c2 two_hrefs c3 show ?thesis by (intro conjI)
qed

text \<open>
  C5 at a run in which every block holds two anchors to the same product: one row per
  category.
\<close>

theorem per_category_dedup_witness:
  "map_option fst (sephora_scr listing_env start) =
     Some (Inr [(''cleanser'', shared_href), (''facial-treatments'', shared_href)]) \<and>
   distinct [(''cleanser'', shared_href), (''facial-treatments'', shared_href)]"
proof -
  from listing_run_table obtain s' where run: "sephora_scr listing_env start =
     Some (Inr [(''cleanser'', shared_href), (''facial-treatments'', shared_href)], s')" ..
  from per_category_dedup [OF run] run show ?thesis by simp
qed

lemma categories_loop_visited:
  "categories_loop env cats df s = Some (r, s') \<Longrightarrow>
   \<exists>evs. calls s' = calls s @ evs \<and> Quit \<notin> set evs"
proof (induction cats arbitrary: df s)
  case Nil
  then show ?case by simp
next
  case (Cons c cs)
  from Cons.prems obtain r1 s1 where
    sc: "scrape_all_paginated_products env ''https://www.sephora.com/shop'' c df 50 s = Some (r1, s1)"
    by (auto split: option.splits)
  from scrape_visited [OF sc] obtain evs1 where
    e1: "calls s1 = calls s @ evs1" "Quit \<notin> set evs1" by (auto simp: visited_def)
  show ?case
  proof (cases r1)
    case (Inl e)
    with Cons.prems sc have "s' = s1" by simp
    with e1 show ?thesis by blast
  next
    case (Inr df1)
    with Cons.prems sc have "categories_loop env cs df1 s1 = Some (r, s')" by simp
    from Cons.IH [OF this] e1 show ?thesis by auto
  qed
qed

text \<open>
  Claim C2 (browser session release), as amended. In the Detail Extractor, however the loop
  ends (normally or by an exception that escapes it), the calls of \<^verbatim>\<open>main\<close> end
  with \<^verbatim>\<open>quit\<close>, called once: the \<^verbatim>\<open>finally\<close> block. In the Link Collector
  \<^verbatim>\<open>quit\<close> is the statement after the loop over the categories: it is called exactly
  when that loop completes without an exception.
\<close>

theorem session_release:
  "(\<forall>r s'. main env data s = (r, s') \<longrightarrow>
      (\<exists>evs. calls s' = calls s @ evs @ [Quit] \<and> Quit \<notin> set evs)) \<and>
   (\<forall>r t'. sephora_scr env' t = Some (r, t') \<longrightarrow>
      (Quit \<in> set (drop (length (calls t)) (calls t')) \<longleftrightarrow>
       (\<exists>df t1. categories_loop env' categories [] t = Some (Inr df, t1))))"
proof (intro conjI allI impI)
  fix r s' assume "main env data s = (r, s')"
  from main_calls [OF this] show "\<exists>evs. calls s' = calls s @ evs @ [Quit] \<and> Quit \<notin> set evs"
    by blast
next
  fix r t' assume run: "sephora_scr env' t = Some (r, t')"
  then obtain r1 t1 where l: "categories_loop env' categories [] t = Some (r1, t1)"
    by (auto simp: sephora_scr_def split: option.splits)
  from categories_loop_visited [OF l] obtain evs where
    evs: "calls t1 = calls t @ evs" "Quit \<notin> set evs" by blast
  show "Quit \<in> set (drop (length (calls t)) (calls t')) \<longleftrightarrow>
        (\<exists>df t1. categories_loop env' categories [] t = Some (Inr df, t1))"
  proof (cases r1)
    case (Inl e)
    with run l have "t' = t1" by (simp add: sephora_scr_def)
    with evs l Inl show ?thesis by simp
  next
    case (Inr df)
    obtain q t2 where q: "call Quit (wd_quit env') t1 = (q, t2)"
      by (cases "call Quit (wd_quit env') t1")
    with run l Inr have "t' = t2" by (auto simp: sephora_scr_def split: sum.splits)
    with call_calls [OF q] evs l Inr show ?thesis by simp
  qed
qed

text \<open>
  C2 as stated fails for the Link Collector: when the first navigation raises, the script ends
  with that exception and \<^verbatim>\<open>quit\<close> was never called.
\<close>

theorem session_release_counterexample:
  "sephora_scr offline_env start =
     Some (Inl (Exception ''WebDriverException''),
           \<lparr>drv = 0, calls = [Get ''https://www.sephora.com/shop/cleanser?currentPage=1'']\<rparr>)"
  by code_simp

text \<open>
  C2 at runs of both scripts: a run of the Detail Extractor that completes, one that is
  interrupted at its second item, and runs of the Link Collector that complete and fail.
\<close>

theorem session_release_witness:
  "(\<exists>evs. calls (snd (main detail_env demo_data fresh)) = calls fresh @ evs @ [Quit] \<and>
          Quit \<notin> set evs) \<and>
   fst (main detail_env stop_data fresh) = Inl (SystemExiting ''KeyboardInterrupt'') \<and>
   (\<exists>evs. calls (snd (main detail_env stop_data fresh)) = calls fresh @ evs @ [Quit] \<and>
          Quit \<notin> set evs) \<and>
   Quit \<in> set (calls (snd (the (sephora_scr listing_env start)))) \<and>
   Quit \<notin> set (calls (snd (the (sephora_scr offline_env start))))"
proof -
  have "\<exists>evs. calls (snd (main detail_env demo_data fresh)) = calls fresh @ evs @ [Quit] \<and>
          Quit \<notin> set evs"
    using session_release [of detail_env demo_data fresh listing_env start]
    by (metis prod.collapse)
  moreover have "\<exists>evs. calls (snd (main detail_env stop_data fresh)) = calls fresh @ evs @ [Quit] \<and>
          Quit \<notin> set evs"
    using session_release [of detail_env stop_data fresh listing_env start]
    by (metis prod.collapse)
  moreover have "fst (main detail_env stop_data fresh) = Inl (SystemExiting ''KeyboardInterrupt'')"
    by (simp add: main_stop)
  moreover have "Quit \<in> set (calls (snd (the (sephora_scr listing_env start))))"
    by code_simp
  moreover have "Quit \<notin> set (calls (snd (the (sephora_scr offline_env start))))"
    by code_simp
  ultimately show ?thesis by blast
qed

lemma upto_next: "int n < m \<Longrightarrow> [int n + 1..m] = (int n + 1) # [int (Suc n) + 1..m]"
  by (simp add: upto_rec1 add.commute)

lemma upto_last: "[1..int (Suc n)] = [1..int n] @ [int n + 1]"
  by (simp add: upto_rec2 add.commute)

lemma before_page_pages_loop:
  "before_page env base cat n acc s = Some (acc1, s1) \<Longrightarrow> int n \<le> m \<Longrightarrow>
   pages_loop env base cat [1..m] acc s = pages_loop env base cat [int n + 1..m] acc1 s1"
proof (induction n arbitrary: acc1 s1)
  case 0
  then show ?case by simp
next
  case (Suc n)
  from Suc.prems(1) obtain a t bl t2 where
    b: "before_page env base cat n acc s = Some (a, t)"
    and sp: "scroll_page env (page_url base cat (int n + 1)) t = Some (Inr bl, t2)"
    and ne: "bl \<noteq> []"
    and bl: "blocks_loop env cat bl a t2 = (Inr acc1, s1)"
    by (auto split: option.splits prod.splits sum.splits if_splits)
  from Suc.prems(2) have le: "int n \<le> m" and lt: "int n < m" by simp_all
  from Suc.IH [OF b le]
  have "pages_loop env base cat [1..m] acc s = pages_loop env base cat [int n + 1..m] a t" .
  also have "\<dots> = pages_loop env base cat ((int n + 1) # [int (Suc n) + 1..m]) a t"
    by (simp only: upto_next [OF lt])
  also have "\<dots> = pages_loop env base cat [int (Suc n) + 1..m] acc1 s1"
    using sp ne bl by simp
  finally show ?case .
qed

lemma before_page_visited:
  "before_page env base cat n acc s = Some (acc1, s1) \<Longrightarrow>
   visited s s1 (map (page_url base cat) [1..int n])"
proof (induction n arbitrary: acc1 s1)
  case 0
  then show ?case by (simp add: visited_Nil)
next
  case (Suc n)
  from Suc.prems(1) obtain a t bl t2 where
    b: "before_page env base cat n acc s = Some (a, t)"
    and sp: "scroll_page env (page_url base cat (int n + 1)) t = Some (Inr bl, t2)"
    and bl: "blocks_loop env cat bl a t2 = (Inr acc1, s1)"
    by (auto split: option.splits prod.splits sum.splits if_splits)
  from blocks_loop_quiet [OF bl] have "visited t2 s1 []" by (simp add: visited_Nil)
  with visited_trans [OF scroll_page_visited [OF sp]]
  have "visited t s1 [page_url base cat (int n + 1)]" by fastforce
  from visited_trans [OF Suc.IH [OF b] this] show ?case
    by (simp only: upto_last map_append list.map)
qed

lemma pages_loop_stages:
  "pages_loop env base cat [int k + 1..m] acc s = Some (Inr acc', s') \<Longrightarrow>
   before_page env base cat k acc0 s0 = Some (acc, s) \<Longrightarrow> int k \<le> max 0 m \<Longrightarrow>
   \<exists>n s1. before_page env base cat n acc0 s0 = Some (acc', s1) \<and>
      (int n = max 0 m \<and> s' = s1 \<or>
       int n < m \<and> scroll_page env (page_url base cat (int n + 1)) s1 = Some (Inr [], s'))"
proof (induction "nat (m - int k)" arbitrary: k acc s)
  case 0
  then have "m \<le> int k" by simp
  with "0.prems" have "acc' = acc" "s' = s" "int k = max 0 m" by auto
  with "0.prems"(2) show ?case by blast
next
  case (Suc x)
  then have lt: "int k < m" by linarith
  from Suc.prems(1) have run:
    "pages_loop env base cat ((int k + 1) # [int (Suc k) + 1..m]) acc s = Some (Inr acc', s')"
    by (simp only: upto_next [OF lt])
  then obtain bl t2 where
    sp: "scroll_page env (page_url base cat (int k + 1)) s = Some (Inr bl, t2)"
    by (auto split: option.splits prod.splits sum.splits)
  show ?case
  proof (cases "bl = []")
    case True
    with run sp have "acc' = acc" "s' = t2" by simp_all
    with Suc.prems(2) sp True lt show ?thesis by blast
  next
    case False
    with run sp obtain acc2 t3 where
      bl: "blocks_loop env cat bl acc t2 = (Inr acc2, t3)"
      and rest: "pages_loop env base cat [int (Suc k) + 1..m] acc2 t3 = Some (Inr acc', s')"
      by (auto split: prod.splits sum.splits)
    from Suc.prems(2) sp False bl
    have b: "before_page env base cat (Suc k) acc0 s0 = Some (acc2, t3)" by simp
    from Suc.hyps(2) have x: "x = nat (m - int (Suc k))" by simp
    from lt have "int (Suc k) \<le> max 0 m" by simp
    from Suc.hyps(1) [OF x rest b this] show ?thesis .
  qed
qed

text \<open>
  Claim C7 (pagination bounds and early stop). One call of
  \<^verbatim>\<open>scrape_all_paginated_products\<close> requests the pages of its category in increasing
  order from page 1, goes on to the next page as long as the page shows blocks, and stops at
  the cap or at the first page without blocks:

  \<^item> the navigations of a call that returns (a table or an exception) are the URLs of the
    pages 1 to \<open>k\<close>, in this order, for some \<open>k\<close> that is at most the cap;
  \<^item> when all pages up to the cap show blocks and their links are collected, the call
    returns the table after the last of them, and its navigations are the pages 1 to the cap;
  \<^item> when the pages 1 to \<open>n\<close> show blocks and their links are collected, \<open>n\<close> is below the
    cap and the scroll of page \<open>n + 1\<close> ends with zero blocks, the call returns at once: its
    table is the table as it was before page \<open>n + 1\<close>, so no link of that page is
    extracted, its session is the one the scroll left, and its navigations are the pages 1
    to \<open>n + 1\<close>, so page \<open>n + 2\<close> is never requested;
  \<^item> a call that returns a table returns in one of these two ways.
\<close>

theorem pagination_bounds_and_early_stop:
  "(\<forall>r s'. scrape_all_paginated_products env base_url cat final_df max_pages s = Some (r, s') \<longrightarrow>
      (\<exists>k. 0 \<le> k \<and> k \<le> max 0 max_pages \<and>
           gets (drop (length (calls s)) (calls s')) = map (page_url base_url cat) [1..k])) \<and>
   (\<forall>n all_hrefs df s1.
      before_page env base_url cat n ({}, final_df) s = Some ((all_hrefs, df), s1) \<and>
      int n = max 0 max_pages \<longrightarrow>
      scrape_all_paginated_products env base_url cat final_df max_pages s = Some (Inr df, s1) \<and>
      gets (drop (length (calls s)) (calls s1)) = map (page_url base_url cat) [1..max_pages]) \<and>
   (\<forall>n all_hrefs df s1 s2.
      before_page env base_url cat n ({}, final_df) s = Some ((all_hrefs, df), s1) \<and>
      int n < max_pages \<and>
      scroll_page env (page_url base_url cat (int n + 1)) s1 = Some (Inr [], s2) \<longrightarrow>
      scrape_all_paginated_products env base_url cat final_df max_pages s = Some (Inr df, s2) \<and>
      gets (drop (length (calls s)) (calls s2)) = map (page_url base_url cat) [1..int n + 1]) \<and>
   (\<forall>df s'. scrape_all_paginated_products env base_url cat final_df max_pages s = Some (Inr df, s') \<longrightarrow>
      (\<exists>n all_hrefs s1.
         before_page env base_url cat n ({}, final_df) s = Some ((all_hrefs, df), s1) \<and>
         (int n = max 0 max_pages \<and> s' = s1 \<or>
          int n < max_pages \<and>
          scroll_page env (page_url base_url cat (int n + 1)) s1 = Some (Inr [], s'))))"
proof (intro conjI allI impI)
  fix r s' assume "scrape_all_paginated_products env base_url cat final_df max_pages s = Some (r, s')"
  from scrape_visited [OF this] show "\<exists>k. 0 \<le> k \<and> k \<le> max 0 max_pages \<and>
           gets (drop (length (calls s)) (calls s')) = map (page_url base_url cat) [1..k]"
    by (auto simp: visited_def)
next
  fix n all_hrefs df s1
  assume a: "before_page env base_url cat n ({}, final_df) s = Some ((all_hrefs, df), s1) \<and>
      int n = max 0 max_pages"
  then have b: "before_page env base_url cat n ({}, final_df) s = Some ((all_hrefs, df), s1)"
    and n: "int n = max 0 max_pages" by simp_all
  have "pages_loop env base_url cat [1..max_pages] ({}, final_df) s = Some (Inr (all_hrefs, df), s1)"
  proof (cases "0 \<le> max_pages")
    case True
    with n have "int n \<le> max_pages" "[int n + 1..max_pages] = []" by simp_all
    with before_page_pages_loop [OF b this(1)] show ?thesis by simp
  next
    case False
    with n have "n = 0" "[1..max_pages] = []" by simp_all
    with b show ?thesis by simp
  qed
  then show "scrape_all_paginated_products env base_url cat final_df max_pages s = Some (Inr df, s1)"
    by (simp add: scrape_all_paginated_products_def)
  have "[1..int n] = [1..max_pages]" using n by (cases "0 \<le> max_pages") simp_all
  with before_page_visited [OF b]
  show "gets (drop (length (calls s)) (calls s1)) = map (page_url base_url cat) [1..max_pages]"
    by (auto simp: visited_def)
next
  fix n all_hrefs df s1 s2
  assume a: "before_page env base_url cat n ({}, final_df) s = Some ((all_hrefs, df), s1) \<and>
      int n < max_pages \<and>
      scroll_page env (page_url base_url cat (int n + 1)) s1 = Some (Inr [], s2)"
  then have b: "before_page env base_url cat n ({}, final_df) s = Some ((all_hrefs, df), s1)"
    and lt: "int n < max_pages"
    and sp: "scroll_page env (page_url base_url cat (int n + 1)) s1 = Some (Inr [], s2)"
    by simp_all
  from lt have le: "int n \<le> max_pages" by simp
  from before_page_pages_loop [OF b le]
  have "pages_loop env base_url cat [1..max_pages] ({}, final_df) s =
      pages_loop env base_url cat [int n + 1..max_pages] (all_hrefs, df) s1" .
  also have "\<dots> = pages_loop env base_url cat ((int n + 1) # [int (Suc n) + 1..max_pages])
      (all_hrefs, df) s1"
    by (simp only: upto_next [OF lt])
  also have "\<dots> = Some (Inr (all_hrefs, df), s2)" using sp by simp
  finally show "scrape_all_paginated_products env base_url cat final_df max_pages s = Some (Inr df, s2)"
    by (simp add: scrape_all_paginated_products_def)
  from visited_trans [OF before_page_visited [OF b] scroll_page_visited [OF sp]]
  have "visited s s2 (map (page_url base_url cat) [1..int (Suc n)])"
    by (simp only: upto_last map_append list.map)
  then show "gets (drop (length (calls s)) (calls s2)) = map (page_url base_url cat) [1..int n + 1]"
    by (auto simp: visited_def add.commute)
next
  fix df s'
  assume "scrape_all_paginated_products env base_url cat final_df max_pages s = Some (Inr df, s')"
  then obtain H' where
    run: "pages_loop env base_url cat [int 0 + 1..max_pages] ({}, final_df) s = Some (Inr (H', df), s')"
    by (auto simp: scrape_all_paginated_products_def split: option.splits sum.splits prod.splits)
  have b0: "before_page env base_url cat 0 ({}, final_df) s = Some (({}, final_df), s)" by simp
  have "int 0 \<le> max 0 max_pages" by simp
  from pages_loop_stages [OF run b0 this]
  show "\<exists>n all_hrefs s1.
         before_page env base_url cat n ({}, final_df) s = Some ((all_hrefs, df), s1) \<and>
         (int n = max 0 max_pages \<and> s' = s1 \<or>
          int n < max_pages \<and>
          scroll_page env (page_url base_url cat (int n + 1)) s1 = Some (Inr [], s'))"
    by blast
qed

lemma page1_done:
  "before_page listing_env ''https://www.sephora.com/shop'' ''cleanser'' 1 ({}, []) start =
     Some (({shared_href}, [(''cleanser'', shared_href)]), after_page1)"
  by code_simp

lemma page2_scroll:
  "scroll_page listing_env (page_url ''https://www.sephora.com/shop'' ''cleanser'' (int 1 + 1))
     after_page1 = Some (Inr [], after_page2)"
  by code_simp

lemma cleanser_pages:
  "map (page_url ''https://www.sephora.com/shop'' ''cleanser'') [1..2] =
     [''https://www.sephora.com/shop/cleanser?currentPage=1'',
      ''https://www.sephora.com/shop/cleanser?currentPage=2''] \<and>
   map (page_url ''https://www.sephora.com/shop'' ''cleanser'') [1..1] =
     [''https://www.sephora.com/shop/cleanser?currentPage=1'']"
  by code_simp

text \<open>
  C7 at the category cleanser of the scripted browser, whose page 1 shows one block and
  whose page 2 shows none. With the cap 50 the call stops at page 2: its navigations are
  pages 1 and 2, and its table is the table after page 1. With the cap 1 the call ends
  after page 1.
\<close>

theorem pagination_bounds_and_early_stop_witness:
  "scrape_all_paginated_products listing_env ''https://www.sephora.com/shop'' ''cleanser'' [] 50 start =
     Some (Inr [(''cleanser'', shared_href)], after_page2) \<and>
   gets (drop (length (calls start)) (calls after_page2)) =
     [''https://www.sephora.com/shop/cleanser?currentPage=1'',
      ''https://www.sephora.com/shop/cleanser?currentPage=2''] \<and>
   (\<exists>k. 0 \<le> k \<and> k \<le> max 0 50 \<and>
      gets (drop (length (calls start)) (calls after_page2)) =
      map (page_url ''https://www.sephora.com/shop'' ''cleanser'') [1..k]) \<and>
   scrape_all_paginated_products listing_env ''https://www.sephora.com/shop'' ''cleanser'' [] 1 start =
     Some (Inr [(''cleanser'', shared_href)], after_page1) \<and>
   gets (drop (length (calls start)) (calls after_page1)) =
     [''https://www.sephora.com/shop/cleanser?currentPage=1'']"
proof -
  note t50 = pagination_bounds_and_early_stop
    [of listing_env "''https://www.sephora.com/shop''" "''cleanser''" "[]" 50 start]
  note t1 = pagination_bounds_and_early_stop
    [of listing_env "''https://www.sephora.com/shop''" "''cleanser''" "[]" 1 start]
  have lt: "int 1 < 50" by simp
  from t50 [THEN conjunct2, THEN conjunct2, THEN conjunct1, rule_format,
      OF conjI [OF page1_done conjI [OF lt page2_scroll]]]
  have stop: "scrape_all_paginated_products listing_env ''https://www.sephora.com/shop''
        ''cleanser'' [] 50 start = Some (Inr [(''cleanser'', shared_href)], after_page2)"
    and nav: "gets (drop (length (calls start)) (calls after_page2)) =
        map (page_url ''https://www.sephora.com/shop'' ''cleanser'') [1..int 1 + 1]"
    by simp_all
  from t50 [THEN conjunct1, rule_format, OF stop]
  have bound: "\<exists>k. 0 \<le> k \<and> k \<le> max 0 50 \<and>
      gets (drop (length (calls start)) (calls after_page2)) =
      map (page_url ''https://www.sephora.com/shop'' ''cleanser'') [1..k]" .
  have cap: "int 1 = max 0 1" by simp
  from t1 [THEN conjunct2, THEN conjunct1, rule_format, OF conjI [OF page1_done cap]]
  have full: "scrape_all_paginated_products listing_env ''https://www.sephora.com/shop''
        ''cleanser'' [] 1 start = Some (Inr [(''cleanser'', shared_href)], after_page1)"
    and nav1: "gets (drop (length (calls start)) (calls after_page1)) =
        map (page_url ''https://www.sephora.com/shop'' ''cleanser'') [1..1]"
    by simp_all
  from nav have nav': "gets (drop (length (calls start)) (calls after_page2)) =
     [''https://www.sephora.com/shop/cleanser?currentPage=1'',
      ''https://www.sephora.com/shop/cleanser?currentPage=2'']"
    using cleanser_pages by simp
  from nav1 have nav1': "gets (drop (length (calls start)) (calls after_page1)) =
     [''https://www.sephora.com/shop/cleanser?currentPage=1'']"
    using cleanser_pages by simp
  from stop nav' bound full nav1' show ?thesis by (intro conjI)
qed

lemma lazy_run:
  "scroll_loop lazy_env (- 1) 0 [] start =
     Some (Inr (replicate 5 ''block''),
           \<lparr>drv = 9, calls = concat (replicate 9
              [FindElements block_selector, ExecuteScript ''window.scrollBy(0, 300);'' []])\<rparr>)"
  by code_simp

text \<open>
  C6 at a page that shows 3 blocks, then 5: the counts read are 3, 5, 5, 5, 5, 5, 5, 5, 5 and
  the loop exits after the ninth read, when reads 3 to 9 were unchanged; after the eighth
  read only 6 were.
\<close>

theorem scroll_stability_witness:
  "scroll_loop lazy_env (- 1) 0 [] start =
     Some (Inr (replicate 5 ''block''),
           \<lparr>drv = 9, calls = concat (replicate 9
              [FindElements block_selector, ExecuteScript ''window.scrollBy(0, 300);'' []])\<rparr>) \<and>
   reads lazy_env 9 start =
     Some (replicate 3 ''block'' # replicate 8 (replicate 5 ''block''),
           \<lparr>drv = 9, calls = concat (replicate 9
              [FindElements block_selector, ExecuteScript ''window.scrollBy(0, 300);'' []])\<rparr>) \<and>
   settled [3, 5, 5, 5, 5, 5, 5, 5, 5] 9 \<and> \<not> settled [3, 5, 5, 5, 5, 5, 5, 5, 5] 8 \<and>
   (\<exists>n bs. reads lazy_env n start =
       Some (bs, \<lparr>drv = 9, calls = concat (replicate 9
              [FindElements block_selector, ExecuteScript ''window.scrollBy(0, 300);'' []])\<rparr>) \<and>
      settled (map length bs) n \<and> (\<forall>k<n. \<not> settled (map length bs) k) \<and>
      replicate 5 ''block'' = last bs)"
proof -
  have "reads lazy_env 9 start =
     Some (replicate 3 ''block'' # replicate 8 (replicate 5 ''block''),
           \<lparr>drv = 9, calls = concat (replicate 9
              [FindElements block_selector, ExecuteScript ''window.scrollBy(0, 300);'' []])\<rparr>)"
    by code_simp
  moreover have "settled [3, 5, 5, 5, 5, 5, 5, 5, 5] 9" by code_simp
  moreover have "\<not> settled [3, 5, 5, 5, 5, 5, 5, 5, 5] 8" by code_simp
  ultimately show ?thesis
    using scroll_stability [THEN iffD1, OF lazy_run] lazy_run by blast
qed

end
